theory Spec2Isabelle
  imports Main "HOL-Library.AList"
begin

section \<open>The thread pool of pool.cc as a transition system\<close>

text \<open>
  Every member of \<^verbatim>\<open>ThreadPool\<close> is guarded by the one mutex \<^verbatim>\<open>mtx_\<close>, so each
  critical section of pool.cc is one atomic step on the shared state.  A call that blocks
  (\<^verbatim>\<open>cv.wait\<close>, \<^verbatim>\<open>join\<close>) is cut at the blocking point into the part before it and the
  part that resumes once the awaited condition holds.  Interleavings of the threads are
  lists of such steps.
\<close>

subsection \<open>Data\<close>

text \<open>
  A \<^verbatim>\<open>Task *\<close> is an address; the null pointer is \<open>None\<close> at the interface of
  \<^verbatim>\<open>SubmitTask\<close>.  A \<^verbatim>\<open>TaskInfo\<close> lives behind a \<^verbatim>\<open>shared_ptr\<close>: the registry and a worker
  may hold the same object, so the objects are kept in a store (\<open>heap\<close>) and are named
  by their index in it.
\<close>

type_synonym task_ptr = nat
type_synonym info_ptr = nat

record TaskInfo =
  task :: task_ptr
  started :: bool
  finished :: bool
  waited :: bool

text \<open>
  The exceptions thrown by pool.cc: their C++ types, and the four \<^verbatim>\<open>throw\<close> expressions
  of the file with their messages.
\<close>

datatype exn = invalid_argument string | runtime_error string

definition InvalidConfiguration :: exn where
  "InvalidConfiguration = invalid_argument ''num_threads must be > 0''"

definition NullTask :: exn where
  "NullTask = invalid_argument ''SubmitTask: task pointer is null''"

definition DuplicateTaskName :: "string \<Rightarrow> exn" where
  "DuplicateTaskName name = runtime_error (''Duplicate task name submitted: '' @ name)"

definition UnknownTaskName :: "string \<Rightarrow> exn" where
  "UnknownTaskName name = runtime_error (''WaitForTask: unknown task name: '' @ name)"

text \<open>
  Where a worker thread is in \<^verbatim>\<open>WorkerLoop\<close>: at the top of the loop (\<open>Idle\<close>, possibly
  blocked on \<^verbatim>\<open>cv_queue_\<close>), holding a dequeued record before \<^verbatim>\<open>Run()\<close> (\<open>Running\<close>), after
  \<^verbatim>\<open>Run()\<close> and before the record is marked finished (\<open>Finishing\<close>), out of the loop
  (\<open>Exited\<close>), and joined by \<^verbatim>\<open>Stop\<close> (\<open>Joined\<close>, no longer joinable).
\<close>

datatype worker = Idle | Running info_ptr | Finishing info_ptr | Exited | Joined

text \<open>
  The members of \<^verbatim>\<open>ThreadPool\<close> (pool.h), the store of \<^verbatim>\<open>TaskInfo\<close> objects, the callers
  suspended inside the pool (\<open>waiting\<close>: the iterator's key and the \<^verbatim>\<open>info\<close> pointer a
  thread blocked in \<^verbatim>\<open>WaitForTask\<close> holds; \<open>joining\<close>: the index of the join loop of the
  thread inside \<^verbatim>\<open>Stop\<close>), and two logs: the tasks whose \<^verbatim>\<open>Run()\<close> a worker called and the
  tasks given to \<^verbatim>\<open>delete\<close>.
\<close>

record ThreadPool =
  stopping :: bool
  queue :: "string list"
  tasks :: "(string \<times> info_ptr) list"
  threads :: "worker list"
  heap :: "TaskInfo list"
  waiting :: "(string \<times> info_ptr) list"
  joining :: "nat option"
  executed :: "task_ptr list"
  deleted :: "task_ptr list"

text \<open>
  What a step of a thread does: it returns, throws (the state is the one the exception
  leaves behind), suspends inside the call, cannot move now (\<open>Blocked\<close>: the awaited
  condition is false), or has undefined behaviour (\<open>Crash\<close>: a null \<^verbatim>\<open>shared_ptr\<close> is
  dereferenced, an erased iterator is used, \<^verbatim>\<open>std::terminate\<close> is called).
\<close>

datatype result =
  Return ThreadPool
| Throw exn ThreadPool
| Suspend ThreadPool
| Blocked
| Crash

subsection \<open>Construction (pool.cc, lines 8 to 16)\<close>

text \<open>
  The loop \<^verbatim>\<open>for (int i = 0; i < num_threads; ++i) threads_.emplace_back(...)\<close>.  The
  counter stays below \<^verbatim>\<open>num_threads\<close>, so it never overflows and \<open>int\<close> stands for the
  C++ \<^verbatim>\<open>int\<close>.
\<close>

function start_threads :: "int \<Rightarrow> int \<Rightarrow> worker list \<Rightarrow> worker list" where
  "start_threads i num_threads ths =
     (if i < num_threads then start_threads (i + 1) num_threads (ths @ [Idle]) else ths)"
  by pat_completeness auto
termination
  by (relation "measure (\<lambda>(i, n, ths). nat (n - i))") auto

declare start_threads.simps [simp del]

definition ThreadPool_ctor :: "int \<Rightarrow> exn + ThreadPool" where
  "ThreadPool_ctor num_threads =
     (if num_threads \<le> 0 then Inl InvalidConfiguration
      else Inr \<lparr> stopping = False, queue = [], tasks = [],
                 threads = start_threads 0 num_threads [],
                 heap = [], waiting = [], joining = None, executed = [], deleted = [] \<rparr>)"

subsection \<open>SubmitTask (lines 31 to 53)\<close>

definition SubmitTask :: "ThreadPool \<Rightarrow> string \<Rightarrow> task_ptr option \<Rightarrow> result" where
  "SubmitTask s name tp =
     (case tp of
        None \<Rightarrow> Throw NullTask s
      | Some t \<Rightarrow>
          if stopping s then Return s
          else if map_of (tasks s) name \<noteq> None then
            Throw (DuplicateTaskName name)
                  (s\<lparr>deleted := deleted s @ [t]\<rparr>)
          else
            Return (s\<lparr>heap := heap s @ [\<lparr>task = t, started = False, finished = False,
                                          waited = False\<rparr>],
                      tasks := AList.update name (length (heap s)) (tasks s),
                      queue := queue s @ [name]\<rparr>))"

subsection \<open>WaitForTask (lines 55 to 69)\<close>

text \<open>Lines 65 to 68: the record is erased from the registry and the task is deleted.\<close>

definition reclaim :: "ThreadPool \<Rightarrow> string \<Rightarrow> info_ptr \<Rightarrow> ThreadPool" where
  "reclaim s name a =
     s\<lparr>tasks := AList.delete name (tasks s), deleted := deleted s @ [task (heap s ! a)]\<rparr>"

text \<open>
  The call up to its return or to its suspension in \<^verbatim>\<open>info->cv.wait\<close>: when the record is
  already finished the predicate of the wait is true at once and the call goes on with
  the mutex held.
\<close>

definition WaitForTask :: "ThreadPool \<Rightarrow> string \<Rightarrow> result" where
  "WaitForTask s name =
     (case map_of (tasks s) name of
        None \<Rightarrow> Throw (UnknownTaskName name) s
      | Some a \<Rightarrow>
          let s1 = s\<lparr>heap := (heap s)[a := (heap s ! a)\<lparr>waited := True\<rparr>]\<rparr> in
          if finished (heap s1 ! a) then Return (reclaim s1 name a)
          else Suspend (s1\<lparr>waiting := waiting s1 @ [(name, a)]\<rparr>))"

text \<open>
  A thread suspended in the wait with iterator key \<open>name\<close> and record \<open>a\<close> wakes when the
  record is finished.  \<^verbatim>\<open>tasks_.erase(it)\<close> on an iterator whose element is gone is
  undefined.  The iterator is taken to stay usable as long as its element is in the map,
  as it does in the node-based maps of the common standard libraries; a rehash by an
  insertion during the wait is not modelled.
\<close>

definition WaitForTask_wake :: "ThreadPool \<Rightarrow> string \<Rightarrow> info_ptr \<Rightarrow> result" where
  "WaitForTask_wake s name a =
     (if (name, a) \<notin> set (waiting s) then Blocked
      else if \<not> finished (heap s ! a) then Blocked
      else if map_of (tasks s) name \<noteq> Some a then Crash
      else Return (reclaim (s\<lparr>waiting := remove1 (name, a) (waiting s)\<rparr>) name a))"

subsection \<open>WorkerLoop (lines 71 to 100)\<close>

text \<open>
  Lines 76 to 86 for worker \<open>i\<close>: the wait on \<^verbatim>\<open>cv_queue_\<close>, the exit test and the
  dequeue.  \<^verbatim>\<open>tasks_[name]\<close> on a missing name inserts a null \<^verbatim>\<open>shared_ptr\<close>, which
  \<^verbatim>\<open>info->started = true\<close> then dereferences.
\<close>

definition WorkerLoop_take :: "ThreadPool \<Rightarrow> nat \<Rightarrow> result" where
  "WorkerLoop_take s i =
     (if \<not> (i < length (threads s) \<and> threads s ! i = Idle) then Blocked
      else if \<not> (stopping s \<or> queue s \<noteq> []) then Blocked
      else if stopping s \<and> queue s = [] then Return (s\<lparr>threads := (threads s)[i := Exited]\<rparr>)
      else
        (case queue s of
           [] \<Rightarrow> Blocked
         | name # rest \<Rightarrow>
             (case map_of (tasks s) name of
                None \<Rightarrow> Crash
              | Some a \<Rightarrow>
                  Return (s\<lparr>queue := rest,
                            heap := (heap s)[a := (heap s ! a)\<lparr>started := True\<rparr>],
                            threads := (threads s)[i := Running a]\<rparr>))))"

text \<open>
  Lines 88 to 92: \<^verbatim>\<open>try { info->task->Run(); } catch (...) { }\<close>.  What \<^verbatim>\<open>Run()\<close> does is
  the task's business; the pool sees it return or raise.
\<close>

datatype run_outcome = Completes | Raises

definition WorkerLoop_run :: "ThreadPool \<Rightarrow> nat \<Rightarrow> run_outcome \<Rightarrow> result" where
  "WorkerLoop_run s i r =
     (if \<not> i < length (threads s) then Blocked
      else
        (case threads s ! i of
           Running a \<Rightarrow>
             (let s1 = s\<lparr>executed := executed s @ [task (heap s ! a)]\<rparr> in
              case r of
                Completes \<Rightarrow> Return (s1\<lparr>threads := (threads s1)[i := Finishing a]\<rparr>)
              | Raises \<Rightarrow> Return (s1\<lparr>threads := (threads s1)[i := Finishing a]\<rparr>))
         | _ \<Rightarrow> Blocked))"

text \<open>Lines 94 to 98: the record is marked finished and its waiters are notified.\<close>

definition WorkerLoop_mark :: "ThreadPool \<Rightarrow> nat \<Rightarrow> result" where
  "WorkerLoop_mark s i =
     (if \<not> i < length (threads s) then Blocked
      else
        (case threads s ! i of
           Finishing a \<Rightarrow>
             Return (s\<lparr>heap := (heap s)[a := (heap s ! a)\<lparr>finished := True\<rparr>],
                       threads := (threads s)[i := Idle]\<rparr>)
         | _ \<Rightarrow> Blocked))"

subsection \<open>Stop (lines 102 to 112)\<close>

text \<open>
  Lines 103 to 108: the call returns at once on a stopping pool, else it sets the flag
  and enters the join loop at the first thread.
\<close>

definition Stop :: "ThreadPool \<Rightarrow> result" where
  "Stop s =
     (if stopping s then Return s
      else Suspend (s\<lparr>stopping := True, joining := Some 0\<rparr>))"

text \<open>
  Lines 109 to 111, one iteration: \<^verbatim>\<open>join\<close> blocks until thread \<open>k\<close> has left its loop; a
  thread that is not joinable is skipped.  After the last thread \<^verbatim>\<open>Stop\<close> returns.  The
  caller of \<^verbatim>\<open>Stop\<close> is taken to be a thread other than the workers: a worker that joins
  itself is an error of the task it runs.
\<close>

definition Stop_join :: "ThreadPool \<Rightarrow> result" where
  "Stop_join s =
     (case joining s of
        None \<Rightarrow> Blocked
      | Some k \<Rightarrow>
          if k < length (threads s) then
            (case threads s ! k of
               Exited \<Rightarrow> Suspend (s\<lparr>threads := (threads s)[k := Joined], joining := Some (k + 1)\<rparr>)
             | Joined \<Rightarrow> Suspend (s\<lparr>joining := Some (k + 1)\<rparr>)
             | _ \<Rightarrow> Blocked)
          else Return (s\<lparr>joining := None\<rparr>))"

subsection \<open>The destructor (lines 18 to 29)\<close>

text \<open>
  Lines 23 to 28, then the destruction of the members: every task still in the registry
  is deleted and the registry is cleared; destroying \<^verbatim>\<open>threads_\<close> calls \<^verbatim>\<open>std::terminate\<close>
  when a thread in it is still joinable.
\<close>

definition release_all :: "ThreadPool \<Rightarrow> result" where
  "release_all s =
     (if \<exists>w \<in> set (threads s). w \<noteq> Joined then Crash
      else Return (s\<lparr>deleted := deleted s @ map (\<lambda>kv. task (heap s ! snd kv)) (tasks s),
                     tasks := []\<rparr>))"

subsection \<open>Interleavings\<close>

text \<open>
  The steps the threads of a process can take on one pool: a call of \<^verbatim>\<open>SubmitTask\<close>,
  of \<^verbatim>\<open>WaitForTask\<close> or of \<^verbatim>\<open>Stop\<close> by any thread, the wake-up of a suspended waiter, an
  iteration of the join loop, and the three sections of the loop of worker \<open>i\<close>.  The
  waits of pool.cc all test a predicate under the mutex, so a waiting thread can move
  exactly when its predicate holds; the notifications themselves carry no state.  A call
  made from inside a running task (a task that waits for another task) is a step like
  any other, taken while its worker is \<open>Running\<close>.
\<close>

datatype action =
  Submit string "task_ptr option"
| Wait string
| Wake string info_ptr
| CallStop
| Join
| Take nat
| Run nat run_outcome
| Mark nat

fun step :: "ThreadPool \<Rightarrow> action \<Rightarrow> result" where
  "step s (Submit name tp) = SubmitTask s name tp"
| "step s (Wait name) = WaitForTask s name"
| "step s (Wake name a) = WaitForTask_wake s name a"
| "step s CallStop = Stop s"
| "step s Join = Stop_join s"
| "step s (Take i) = WorkerLoop_take s i"
| "step s (Run i r) = WorkerLoop_run s i r"
| "step s (Mark i) = WorkerLoop_mark s i"

text \<open>
  An interleaving is run step by step; an exception goes back to the caller of that
  step and the other threads go on.  The run is \<open>Blocked\<close> when a step of the list
  cannot be taken where the list has it.
\<close>

fun run :: "ThreadPool \<Rightarrow> action list \<Rightarrow> result" where
  "run s [] = Return s"
| "run s (a # as) =
     (case step s a of
        Return s' \<Rightarrow> run s' as
      | Throw e s' \<Rightarrow> run s' as
      | Suspend s' \<Rightarrow> run s' as
      | Blocked \<Rightarrow> Blocked
      | Crash \<Rightarrow> Crash)"

text \<open>
  The destructor: \<^verbatim>\<open>if (!stopping_) { try { Stop(); } catch (...) { } }\<close>, then lines 23 to
  28.  While the destructor is inside \<^verbatim>\<open>Stop\<close> the other threads run; \<open>sched\<close> is the
  interleaving of their steps with the iterations of its join loop, and the destructor
  goes on once the join loop has returned.
\<close>

definition ThreadPool_dtor :: "ThreadPool \<Rightarrow> action list \<Rightarrow> result" where
  "ThreadPool_dtor s sched =
     (if \<not> stopping s then
        (case run s (CallStop # sched) of
           Return s' \<Rightarrow> (if joining s' = None then release_all s' else Blocked)
         | r \<Rightarrow> r)
      else release_all s)"

text \<open>
  What the pool asks of its callers (pool.h: the pool takes over the task it is given;
  \<^verbatim>\<open>WaitForTask\<close> is called once per submitted task): a submitted task is a live object
  that the pool does not own yet, and a record is waited on at most once.
\<close>

fun obeys :: "ThreadPool \<Rightarrow> action \<Rightarrow> bool" where
  "obeys s (Submit name (Some t)) = (t \<notin> set (deleted s) \<and> t \<notin> set (map task (heap s)))"
| "obeys s (Wait name) =
     (case map_of (tasks s) name of None \<Rightarrow> True | Some a \<Rightarrow> \<not> waited (heap s ! a))"
| "obeys s _ = True"

fun conforms :: "ThreadPool \<Rightarrow> action list \<Rightarrow> bool" where
  "conforms s [] = True"
| "conforms s (a # as) =
     (obeys s a \<and>
      (case step s a of
         Return s' \<Rightarrow> conforms s' as
       | Throw e s' \<Rightarrow> conforms s' as
       | Suspend s' \<Rightarrow> conforms s' as
       | Blocked \<Rightarrow> True
       | Crash \<Rightarrow> True))"

subsection \<open>Invariants\<close>

text \<open>The state a step leaves behind, when it can be taken and does not crash.\<close>

fun next_state :: "result \<Rightarrow> ThreadPool option" where
  "next_state (Return s) = Some s"
| "next_state (Throw e s) = Some s"
| "next_state (Suspend s) = Some s"
| "next_state Blocked = None"
| "next_state Crash = None"

text \<open>A worker holds a record from the dequeue until it has marked it finished.\<close>

definition holds :: "worker \<Rightarrow> info_ptr \<Rightarrow> bool" where
  "holds w a \<longleftrightarrow> w = Running a \<or> w = Finishing a"

definition registry_inv :: "ThreadPool \<Rightarrow> bool" where
  "registry_inv s \<longleftrightarrow>
     (\<forall>n a. map_of (tasks s) n = Some a \<longrightarrow> a < length (heap s)) \<and>
     (\<forall>n m a. map_of (tasks s) n = Some a \<longrightarrow> map_of (tasks s) m = Some a \<longrightarrow> n = m)"

definition queue_inv :: "ThreadPool \<Rightarrow> bool" where
  "queue_inv s \<longleftrightarrow>
     distinct (queue s) \<and>
     (\<forall>n \<in> set (queue s). \<exists>a. map_of (tasks s) n = Some a \<and>
         \<not> started (heap s ! a) \<and> \<not> finished (heap s ! a))"

definition worker_inv :: "ThreadPool \<Rightarrow> bool" where
  "worker_inv s \<longleftrightarrow>
     (\<forall>i a. i < length (threads s) \<longrightarrow> holds (threads s ! i) a \<longrightarrow>
        a < length (heap s) \<and> started (heap s ! a))"

text \<open>
  A record a worker holds is unfinished and registered, and no two workers hold the
  same record.
\<close>

definition held_inv :: "ThreadPool \<Rightarrow> bool" where
  "held_inv s \<longleftrightarrow>
     (\<forall>i a. i < length (threads s) \<longrightarrow> holds (threads s ! i) a \<longrightarrow>
        \<not> finished (heap s ! a) \<and> (\<exists>n. map_of (tasks s) n = Some a)) \<and>
     (\<forall>i j a. i < length (threads s) \<longrightarrow> j < length (threads s) \<longrightarrow>
        holds (threads s ! i) a \<longrightarrow> holds (threads s ! j) a \<longrightarrow> i = j)"

definition exited_inv :: "ThreadPool \<Rightarrow> bool" where
  "exited_inv s \<longleftrightarrow>
     (\<forall>i < length (threads s). threads s ! i = Exited \<or> threads s ! i = Joined \<longrightarrow>
        stopping s \<and> queue s = [])"

definition joining_inv :: "ThreadPool \<Rightarrow> bool" where
  "joining_inv s \<longleftrightarrow>
     (\<forall>k. joining s = Some k \<longrightarrow>
        stopping s \<and> (\<forall>j < k. j < length (threads s) \<longrightarrow> threads s ! j = Joined))"

definition joined_inv :: "ThreadPool \<Rightarrow> bool" where
  "joined_inv s \<longleftrightarrow>
     (stopping s \<and> joining s = None \<longrightarrow> (\<forall>i < length (threads s). threads s ! i = Joined))"

definition wait_inv :: "ThreadPool \<Rightarrow> bool" where
  "wait_inv s \<longleftrightarrow>
     distinct (waiting s) \<and>
     (\<forall>n a. (n, a) \<in> set (waiting s) \<longrightarrow>
        map_of (tasks s) n = Some a \<and> a < length (heap s) \<and> waited (heap s ! a))"

definition own_inv :: "ThreadPool \<Rightarrow> bool" where
  "own_inv s \<longleftrightarrow>
     distinct (map task (heap s)) \<and> distinct (deleted s) \<and>
     (\<forall>n a. map_of (tasks s) n = Some a \<longrightarrow> task (heap s ! a) \<notin> set (deleted s))"

text \<open>
  Record \<open>a\<close> with task \<open>t\<close> is accounted for: it is still queued, a worker is about to
  run it, or it has been run.
\<close>

definition accounted :: "ThreadPool \<Rightarrow> info_ptr \<Rightarrow> task_ptr \<Rightarrow> bool" where
  "accounted s a t \<longleftrightarrow>
     a < length (heap s) \<and> task (heap s ! a) = t \<and>
     ((\<exists>n \<in> set (queue s). map_of (tasks s) n = Some a) \<or>
      Running a \<in> set (threads s) \<or>
      t \<in> set (executed s))"

text \<open>Every task the pool took over is still registered or has been deleted.\<close>

definition leak_inv :: "ThreadPool \<Rightarrow> bool" where
  "leak_inv s \<longleftrightarrow>
     (\<forall>a < length (heap s).
        (\<exists>n. map_of (tasks s) n = Some a) \<or> task (heap s ! a) \<in> set (deleted s))"

text \<open>Only tasks of records are run.\<close>

definition executed_inv :: "ThreadPool \<Rightarrow> bool" where
  "executed_inv s \<longleftrightarrow> set (executed s) \<subseteq> set (map task (heap s))"

text \<open>The registry has one entry per name, as an \<^verbatim>\<open>unordered_map\<close> does.\<close>

definition keys_inv :: "ThreadPool \<Rightarrow> bool" where
  "keys_inv s \<longleftrightarrow> distinct (map fst (tasks s))"

text \<open>
  What holds in every state the pool reaches (\<open>pool_inv\<close>), and what holds in addition
  when the callers keep to \<open>obeys\<close> (\<open>owner_inv\<close>).
\<close>

definition pool_inv :: "ThreadPool \<Rightarrow> bool" where
  "pool_inv s \<longleftrightarrow>
     threads s \<noteq> [] \<and> registry_inv s \<and> worker_inv s \<and> queue_inv s \<and>
     held_inv s \<and> exited_inv s \<and> joining_inv s \<and> joined_inv s \<and> leak_inv s \<and>
     executed_inv s \<and> keys_inv s"

definition owner_inv :: "ThreadPool \<Rightarrow> bool" where
  "owner_inv s \<longleftrightarrow> pool_inv s \<and> wait_inv s \<and> own_inv s"

text \<open>
  A bound on the steps the workers and the join loop still have to take once the pool is
  stopping: each of their steps lowers it.
\<close>

fun weight :: "worker \<Rightarrow> nat" where
  "weight (Running a) = 5"
| "weight (Finishing a) = 4"
| "weight Idle = 2"
| "weight Exited = 1"
| "weight Joined = 0"

definition remaining :: "ThreadPool \<Rightarrow> nat" where
  "remaining s =
     4 * length (queue s) + sum_list (map weight (threads s)) +
     (case joining s of None \<Rightarrow> 0 | Some k \<Rightarrow> 1 + (length (threads s) - k))"

section \<open>Steps and invariants\<close>

lemma start_threads_eq:
  "start_threads i n ths = ths @ replicate (nat (n - i)) Idle"
proof (induction i n ths rule: start_threads.induct)
  case (1 i n ths)
  show ?case
  proof (cases "i < n")
    case True
    then have "nat (n - i) = Suc (nat (n - (i + 1)))" by simp
    with True "1" show ?thesis
      by (subst start_threads.simps) (simp add: replicate_append_same)
  next
    case False
    then show ?thesis by (subst start_threads.simps) simp
  qed
qed

subsection \<open>Updates of records and of the thread list\<close>

lemma holds_simps [simp]:
  "holds (Running p) a \<longleftrightarrow> p = a"
  "holds (Finishing p) a \<longleftrightarrow> p = a"
  "\<not> holds Idle a" "\<not> holds Exited a" "\<not> holds Joined a"
  by (auto simp: holds_def)

lemma upd_waited [simp]:
  "started (h[p := (h ! p)\<lparr>waited := True\<rparr>] ! a) = started (h ! a)"
  "finished (h[p := (h ! p)\<lparr>waited := True\<rparr>] ! a) = finished (h ! a)"
  "task (h[p := (h ! p)\<lparr>waited := True\<rparr>] ! a) = task (h ! a)"
  "waited (h[p := (h ! p)\<lparr>waited := True\<rparr>] ! a) = (a = p \<and> p < length h \<or> waited (h ! a))"
  by (cases "p < length h"; cases "a = p"; simp add: list_update_beyond)+

lemma upd_started [simp]:
  "waited (h[p := (h ! p)\<lparr>started := True\<rparr>] ! a) = waited (h ! a)"
  "finished (h[p := (h ! p)\<lparr>started := True\<rparr>] ! a) = finished (h ! a)"
  "task (h[p := (h ! p)\<lparr>started := True\<rparr>] ! a) = task (h ! a)"
  "started (h[p := (h ! p)\<lparr>started := True\<rparr>] ! a) = (a = p \<and> p < length h \<or> started (h ! a))"
  by (cases "p < length h"; cases "a = p"; simp add: list_update_beyond)+

lemma upd_finished [simp]:
  "waited (h[p := (h ! p)\<lparr>finished := True\<rparr>] ! a) = waited (h ! a)"
  "started (h[p := (h ! p)\<lparr>finished := True\<rparr>] ! a) = started (h ! a)"
  "task (h[p := (h ! p)\<lparr>finished := True\<rparr>] ! a) = task (h ! a)"
  "finished (h[p := (h ! p)\<lparr>finished := True\<rparr>] ! a) = (a = p \<and> p < length h \<or> finished (h ! a))"
  by (cases "p < length h"; cases "a = p"; simp add: list_update_beyond)+

lemma map_task_upd [simp]:
  "map task (h[p := (h ! p)\<lparr>waited := True\<rparr>]) = map task h"
  "map task (h[p := (h ! p)\<lparr>started := True\<rparr>]) = map task h"
  "map task (h[p := (h ! p)\<lparr>finished := True\<rparr>]) = map task h"
  by (simp_all add: list_eq_iff_nth_eq)

lemma in_set_update_iff:
  assumes "i < length xs" and "xs ! i \<noteq> x"
  shows "x \<in> set (xs[i := y]) \<longleftrightarrow> x = y \<or> x \<in> set xs"
proof
  assume "x \<in> set (xs[i := y])"
  then show "x = y \<or> x \<in> set xs"
    using set_update_subset_insert [of xs i y] by auto
next
  assume "x = y \<or> x \<in> set xs"
  then show "x \<in> set (xs[i := y])"
  proof
    assume "x = y"
    with assms(1) show ?thesis by (simp add: set_update_memI)
  next
    assume "x \<in> set xs"
    then obtain j where j: "j < length xs" "xs ! j = x"
      by (auto simp: in_set_conv_nth)
    with assms(2) have "j \<noteq> i" by auto
    with j have "(xs[i := y]) ! j = x" "j < length (xs[i := y])" by simp_all
    then show ?thesis by (metis nth_mem)
  qed
qed

subsection \<open>The steps, case by case\<close>

lemma SubmitTask_next:
  assumes "next_state (SubmitTask s name tp) = Some s'"
  shows "(tp = None \<and> s' = s) \<or> (\<exists>t. tp = Some t \<and> stopping s \<and> s' = s) \<or>
  (\<exists>t p. tp = Some t \<and> \<not> stopping s \<and> map_of (tasks s) name = Some p \<and>
      s' = s\<lparr>deleted := deleted s @ [t]\<rparr>) \<or>
  (\<exists>t. tp = Some t \<and> \<not> stopping s \<and> map_of (tasks s) name = None \<and>
      s' = s\<lparr>heap := heap s @ [\<lparr>task = t, started = False, finished = False, waited = False\<rparr>],
              tasks := AList.update name (length (heap s)) (tasks s),
              queue := queue s @ [name]\<rparr>)"
  by (insert assms, cases tp; cases "map_of (tasks s) name";
      simp add: SubmitTask_def split: if_splits)

lemma WaitForTask_next:
  assumes "next_state (WaitForTask s name) = Some s'"
  shows "(map_of (tasks s) name = None \<and> s' = s) \<or>
  (\<exists>p. map_of (tasks s) name = Some p \<and> finished (heap s ! p) \<and>
      s' = s\<lparr>heap := (heap s)[p := (heap s ! p)\<lparr>waited := True\<rparr>],
              tasks := AList.delete name (tasks s),
              deleted := deleted s @ [task (heap s ! p)]\<rparr>) \<or>
  (\<exists>p. map_of (tasks s) name = Some p \<and> \<not> finished (heap s ! p) \<and>
      s' = s\<lparr>heap := (heap s)[p := (heap s ! p)\<lparr>waited := True\<rparr>],
              waiting := waiting s @ [(name, p)]\<rparr>)"
  by (insert assms, cases "map_of (tasks s) name")
     (simp_all add: WaitForTask_def reclaim_def Let_def split: if_splits)

lemma WaitForTask_wake_next:
  assumes "next_state (WaitForTask_wake s name p) = Some s'"
  shows "(name, p) \<in> set (waiting s) \<and> finished (heap s ! p) \<and>
      map_of (tasks s) name = Some p \<and>
      s' = s\<lparr>waiting := remove1 (name, p) (waiting s),
              tasks := AList.delete name (tasks s),
              deleted := deleted s @ [task (heap s ! p)]\<rparr>"
  using assms by (simp add: WaitForTask_wake_def reclaim_def split: if_splits)

lemma Stop_next:
  assumes "next_state (Stop s) = Some s'"
  shows "(stopping s \<and> s' = s) \<or>
     (\<not> stopping s \<and> s' = s\<lparr>stopping := True, joining := Some 0\<rparr>)"
  using assms by (simp add: Stop_def split: if_splits)

lemma Stop_join_next:
  assumes "next_state (Stop_join s) = Some s'"
  shows "(\<exists>k. joining s = Some k \<and> k < length (threads s) \<and> threads s ! k = Exited \<and>
      s' = s\<lparr>threads := (threads s)[k := Joined], joining := Some (k + 1)\<rparr>) \<or>
  (\<exists>k. joining s = Some k \<and> k < length (threads s) \<and> threads s ! k = Joined \<and>
      s' = s\<lparr>joining := Some (k + 1)\<rparr>) \<or>
  (\<exists>k. joining s = Some k \<and> \<not> k < length (threads s) \<and> s' = s\<lparr>joining := None\<rparr>)"
  by (insert assms, cases "joining s"; cases "threads s ! the (joining s)")
     (simp_all add: Stop_join_def split: if_splits)

lemma WorkerLoop_take_next:
  assumes "next_state (WorkerLoop_take s i) = Some s'"
  shows "(i < length (threads s) \<and> threads s ! i = Idle \<and> stopping s \<and>
      queue s = [] \<and> s' = s\<lparr>threads := (threads s)[i := Exited]\<rparr>) \<or>
  (\<exists>name rest p. i < length (threads s) \<and> threads s ! i = Idle \<and>
      queue s = name # rest \<and> map_of (tasks s) name = Some p \<and>
      s' = s\<lparr>queue := rest, heap := (heap s)[p := (heap s ! p)\<lparr>started := True\<rparr>],
              threads := (threads s)[i := Running p]\<rparr>)"
proof (cases "queue s")
  case Nil
  with assms show ?thesis by (simp add: WorkerLoop_take_def split: if_splits)
next
  case (Cons name rest)
  with assms show ?thesis
    by (cases "map_of (tasks s) name") (simp_all add: WorkerLoop_take_def split: if_splits)
qed

lemma WorkerLoop_run_next:
  assumes "next_state (WorkerLoop_run s i r) = Some s'"
  shows "\<exists>p. i < length (threads s) \<and> threads s ! i = Running p \<and>
      s' = s\<lparr>executed := executed s @ [task (heap s ! p)],
              threads := (threads s)[i := Finishing p]\<rparr>"
  by (insert assms, cases "threads s ! i"; cases r)
     (simp_all add: WorkerLoop_run_def Let_def split: if_splits)

lemma WorkerLoop_mark_next:
  assumes "next_state (WorkerLoop_mark s i) = Some s'"
  shows "\<exists>p. i < length (threads s) \<and> threads s ! i = Finishing p \<and>
      s' = s\<lparr>heap := (heap s)[p := (heap s ! p)\<lparr>finished := True\<rparr>],
              threads := (threads s)[i := Idle]\<rparr>"
  by (insert assms, cases "threads s ! i") (simp_all add: WorkerLoop_mark_def split: if_splits)

lemma step_cases [consumes 1, case_names submit_null submit_stopping submit_dup submit_new
    wait_unknown wait_now wait_suspend wake stop_again stop_first join_exited join_skip
    join_return take_exit take_task run mark]:
  assumes "next_state (step s a) = Some s'"
  obtains
    name where "a = Submit name None" "s' = s"
  | name t where "a = Submit name (Some t)" "stopping s" "s' = s"
  | name t p where "a = Submit name (Some t)" "\<not> stopping s" "map_of (tasks s) name = Some p"
      "s' = s\<lparr>deleted := deleted s @ [t]\<rparr>"
  | name t where "a = Submit name (Some t)" "\<not> stopping s" "map_of (tasks s) name = None"
      "s' = s\<lparr>heap := heap s @ [\<lparr>task = t, started = False, finished = False, waited = False\<rparr>],
              tasks := AList.update name (length (heap s)) (tasks s),
              queue := queue s @ [name]\<rparr>"
  | name where "a = Wait name" "map_of (tasks s) name = None" "s' = s"
  | name p where "a = Wait name" "map_of (tasks s) name = Some p" "finished (heap s ! p)"
      "s' = s\<lparr>heap := (heap s)[p := (heap s ! p)\<lparr>waited := True\<rparr>],
              tasks := AList.delete name (tasks s),
              deleted := deleted s @ [task (heap s ! p)]\<rparr>"
  | name p where "a = Wait name" "map_of (tasks s) name = Some p" "\<not> finished (heap s ! p)"
      "s' = s\<lparr>heap := (heap s)[p := (heap s ! p)\<lparr>waited := True\<rparr>],
              waiting := waiting s @ [(name, p)]\<rparr>"
  | name p where "a = Wake name p" "(name, p) \<in> set (waiting s)" "finished (heap s ! p)"
      "map_of (tasks s) name = Some p"
      "s' = s\<lparr>waiting := remove1 (name, p) (waiting s),
              tasks := AList.delete name (tasks s),
              deleted := deleted s @ [task (heap s ! p)]\<rparr>"
  | "a = CallStop" "stopping s" "s' = s"
  | "a = CallStop" "\<not> stopping s" "s' = s\<lparr>stopping := True, joining := Some 0\<rparr>"
  | k where "a = Join" "joining s = Some k" "k < length (threads s)" "threads s ! k = Exited"
      "s' = s\<lparr>threads := (threads s)[k := Joined], joining := Some (k + 1)\<rparr>"
  | k where "a = Join" "joining s = Some k" "k < length (threads s)" "threads s ! k = Joined"
      "s' = s\<lparr>joining := Some (k + 1)\<rparr>"
  | k where "a = Join" "joining s = Some k" "\<not> k < length (threads s)"
      "s' = s\<lparr>joining := None\<rparr>"
  | i where "a = Take i" "i < length (threads s)" "threads s ! i = Idle" "stopping s"
      "queue s = []" "s' = s\<lparr>threads := (threads s)[i := Exited]\<rparr>"
  | i name rest p where "a = Take i" "i < length (threads s)" "threads s ! i = Idle"
      "queue s = name # rest" "map_of (tasks s) name = Some p"
      "s' = s\<lparr>queue := rest, heap := (heap s)[p := (heap s ! p)\<lparr>started := True\<rparr>],
              threads := (threads s)[i := Running p]\<rparr>"
  | i r p where "a = Run i r" "i < length (threads s)" "threads s ! i = Running p"
      "s' = s\<lparr>executed := executed s @ [task (heap s ! p)],
              threads := (threads s)[i := Finishing p]\<rparr>"
  | i p where "a = Mark i" "i < length (threads s)" "threads s ! i = Finishing p"
      "s' = s\<lparr>heap := (heap s)[p := (heap s ! p)\<lparr>finished := True\<rparr>],
              threads := (threads s)[i := Idle]\<rparr>"
proof (cases a)
  case (Submit name tp)
  with assms have "next_state (SubmitTask s name tp) = Some s'" by simp
  from SubmitTask_next [OF this] Submit that(1-4) show ?thesis by blast
next
  case (Wait name)
  with assms have "next_state (WaitForTask s name) = Some s'" by simp
  from WaitForTask_next [OF this] Wait that(5-7) show ?thesis by blast
next
  case (Wake name p)
  with assms have "next_state (WaitForTask_wake s name p) = Some s'" by simp
  from WaitForTask_wake_next [OF this] Wake that(8) show ?thesis by blast
next
  case CallStop
  with assms have "next_state (Stop s) = Some s'" by simp
  from Stop_next [OF this] CallStop that(9-10) show ?thesis by blast
next
  case Join
  with assms have "next_state (Stop_join s) = Some s'" by simp
  from Stop_join_next [OF this] Join that(11-13) show ?thesis by blast
next
  case (Take i)
  with assms have "next_state (WorkerLoop_take s i) = Some s'" by simp
  from WorkerLoop_take_next [OF this] Take that(14-15) show ?thesis by blast
next
  case (Run i r)
  with assms have "next_state (WorkerLoop_run s i r) = Some s'" by simp
  from WorkerLoop_run_next [OF this] Run that(16) show ?thesis by blast
next
  case (Mark i)
  with assms have "next_state (WorkerLoop_mark s i) = Some s'" by simp
  from WorkerLoop_mark_next [OF this] Mark that(17) show ?thesis by blast
qed

lemma run_induct [consumes 1, case_names init step]:
  assumes "run s as = Return s'"
    and "P s"
    and "\<And>s a s'. P s \<Longrightarrow> next_state (step s a) = Some s' \<Longrightarrow> P s'"
  shows "P s'"
  using assms(1,2)
proof (induction as arbitrary: s)
  case Nil
  then show ?case by simp
next
  case (Cons a as)
  show ?case
  proof (cases "step s a")
    case (Return t)
    with Cons.prems have "run t as = Return s'" by simp
    moreover from Return Cons.prems(2) assms(3) [of s a t] have "P t" by simp
    ultimately show ?thesis by (rule Cons.IH)
  next
    case (Throw e t)
    with Cons.prems have "run t as = Return s'" by simp
    moreover from Throw Cons.prems(2) assms(3) [of s a t] have "P t" by simp
    ultimately show ?thesis by (rule Cons.IH)
  next
    case (Suspend t)
    with Cons.prems have "run t as = Return s'" by simp
    moreover from Suspend Cons.prems(2) assms(3) [of s a t] have "P t" by simp
    ultimately show ?thesis by (rule Cons.IH)
  next
    case Blocked
    with Cons.prems show ?thesis by simp
  next
    case Crash
    with Cons.prems show ?thesis by simp
  qed
qed

subsection \<open>Every step keeps the invariants\<close>

lemma registry_inv_step:
  assumes "next_state (step s a) = Some s'" and "registry_inv s"
  shows "registry_inv s'"
  using assms
proof (cases rule: step_cases)
  case (submit_new name t)
  with assms(2) show ?thesis
    by (fastforce simp: registry_inv_def update_conv' less_Suc_eq split: if_splits)
next
  case (wait_now name p)
  with assms(2) show ?thesis
    by (fastforce simp: registry_inv_def delete_conv' split: if_splits)
next
  case (wake name p)
  with assms(2) show ?thesis
    by (fastforce simp: registry_inv_def delete_conv' split: if_splits)
qed (auto simp: registry_inv_def)

lemma worker_inv_step:
  assumes "next_state (step s a) = Some s'" and "worker_inv s" and "registry_inv s"
  shows "worker_inv s'"
  using assms(1)
proof (cases rule: step_cases)
  case (submit_new name t)
  with assms(2) show ?thesis
    by (fastforce simp: worker_inv_def nth_append less_Suc_eq)
next
  case (take_task i name rest p)
  with assms(2,3) show ?thesis
    by (auto simp: worker_inv_def registry_inv_def nth_list_update)
qed (use assms(2) in \<open>auto simp: worker_inv_def nth_list_update\<close>)

lemma queue_inv_step:
  assumes "next_state (step s a) = Some s'" and "queue_inv s" and "worker_inv s"
    and "registry_inv s"
  shows "queue_inv s'"
  using assms(1)
proof (cases rule: step_cases)
  case (submit_new name t)
  with assms(2,4) show ?thesis
    by (fastforce simp: queue_inv_def registry_inv_def update_conv' nth_append)
next
  case (wait_now name p)
  with assms(2,4) show ?thesis
    by (fastforce simp: queue_inv_def registry_inv_def delete_conv')
next
  case (wake name p)
  with assms(2,4) show ?thesis
    by (fastforce simp: queue_inv_def registry_inv_def delete_conv')
next
  case (take_task i name rest p)
  with assms(2,4) show ?thesis
    by (fastforce simp: queue_inv_def registry_inv_def)
next
  case (mark i p)
  with assms(2,3) show ?thesis
    by (fastforce simp: queue_inv_def worker_inv_def)
qed (use assms(2) in \<open>auto simp: queue_inv_def\<close>)

lemma held_invD:
  assumes "held_inv s" and "i < length (threads s)" and "holds (threads s ! i) a"
  shows "\<not> finished (heap s ! a)" and "\<exists>n. map_of (tasks s) n = Some a"
  using assms by (auto simp: held_inv_def)

lemma held_inv_unique:
  assumes "held_inv s" and "i < length (threads s)" and "j < length (threads s)"
    and "holds (threads s ! i) a" and "holds (threads s ! j) a"
  shows "i = j"
  using assms unfolding held_inv_def by blast

lemma held_invI:
  assumes "\<And>i a. i < length (threads s) \<Longrightarrow> holds (threads s ! i) a \<Longrightarrow>
      \<not> finished (heap s ! a) \<and> (\<exists>n. map_of (tasks s) n = Some a)"
    and "\<And>i j a. i < length (threads s) \<Longrightarrow> j < length (threads s) \<Longrightarrow>
      holds (threads s ! i) a \<Longrightarrow> holds (threads s ! j) a \<Longrightarrow> i = j"
  shows "held_inv s"
  using assms unfolding held_inv_def by blast

lemma held_inv_step:
  assumes "next_state (step s a) = Some s'" and "held_inv s"
    and "worker_inv s" and "queue_inv s"
  shows "held_inv s'"
  using assms(1)
proof (cases rule: step_cases)
  case (submit_new name t)
  have reg: "map_of (tasks s') n = Some q" if "map_of (tasks s) n = Some q" for n q
    using that submit_new by (auto simp: update_conv')
  show ?thesis
  proof (rule held_invI)
    fix i q assume h: "i < length (threads s')" "holds (threads s' ! i) q"
    with submit_new have h': "i < length (threads s)" "holds (threads s ! i) q" by simp_all
    from held_invD [OF assms(2) h'] obtain n where
      "\<not> finished (heap s ! q)" "map_of (tasks s) n = Some q" by blast
    moreover from assms(3) h' have "q < length (heap s)" by (auto simp: worker_inv_def)
    ultimately show "\<not> finished (heap s' ! q) \<and> (\<exists>n. map_of (tasks s') n = Some q)"
      using reg submit_new by (auto simp: nth_append)
  next
    fix i j q assume "i < length (threads s')" "j < length (threads s')"
      "holds (threads s' ! i) q" "holds (threads s' ! j) q"
    with submit_new held_inv_unique [OF assms(2)] show "i = j" by simp
  qed
next
  case (wait_now name p)
  show ?thesis
  proof (rule held_invI)
    fix i q assume h: "i < length (threads s')" "holds (threads s' ! i) q"
    with wait_now have h': "i < length (threads s)" "holds (threads s ! i) q" by simp_all
    from held_invD [OF assms(2) h'] obtain n where
      n: "\<not> finished (heap s ! q)" "map_of (tasks s) n = Some q" by blast
    with wait_now have "n \<noteq> name" by auto
    with n wait_now have "map_of (tasks s') n = Some q" by (simp add: delete_conv')
    with n wait_now show "\<not> finished (heap s' ! q) \<and> (\<exists>n. map_of (tasks s') n = Some q)"
      by auto
  next
    fix i j q assume "i < length (threads s')" "j < length (threads s')"
      "holds (threads s' ! i) q" "holds (threads s' ! j) q"
    with wait_now held_inv_unique [OF assms(2)] show "i = j" by simp
  qed
next
  case (wake name p)
  show ?thesis
  proof (rule held_invI)
    fix i q assume h: "i < length (threads s')" "holds (threads s' ! i) q"
    with wake have h': "i < length (threads s)" "holds (threads s ! i) q" by simp_all
    from held_invD [OF assms(2) h'] obtain n where
      n: "\<not> finished (heap s ! q)" "map_of (tasks s) n = Some q" by blast
    with wake have "n \<noteq> name" by auto
    with n wake have "map_of (tasks s') n = Some q" by (simp add: delete_conv')
    with n wake show "\<not> finished (heap s' ! q) \<and> (\<exists>n. map_of (tasks s') n = Some q)"
      by auto
  next
    fix i j q assume "i < length (threads s')" "j < length (threads s')"
      "holds (threads s' ! i) q" "holds (threads s' ! j) q"
    with wake held_inv_unique [OF assms(2)] show "i = j" by simp
  qed
next
  case (take_task i name rest p)
  from assms(4) take_task have p: "\<not> started (heap s ! p)" "\<not> finished (heap s ! p)"
    by (auto simp: queue_inv_def)
  have nothold: "\<not> holds (threads s ! j) p" if "j < length (threads s)" for j
    using assms(3) that p by (auto simp: worker_inv_def)
  show ?thesis
  proof (rule held_invI)
    fix j q assume h: "j < length (threads s')" "holds (threads s' ! j) q"
    show "\<not> finished (heap s' ! q) \<and> (\<exists>n. map_of (tasks s') n = Some q)"
    proof (cases "j = i")
      case True
      with h take_task have "q = p" by simp
      with take_task p show ?thesis by auto
    next
      case False
      with h take_task have h': "j < length (threads s)" "holds (threads s ! j) q" by simp_all
      from held_invD [OF assms(2) h'] take_task show ?thesis by auto
    qed
  next
    fix j k q assume h: "j < length (threads s')" "k < length (threads s')"
      "holds (threads s' ! j) q" "holds (threads s' ! k) q"
    show "j = k"
    proof (cases "j = i \<or> k = i")
      case True
      with h take_task nothold show ?thesis
        by (cases "j = i"; cases "k = i") (auto simp: nth_list_update)
    next
      case False
      with h take_task held_inv_unique [OF assms(2), of j k q] show ?thesis by simp
    qed
  qed
next
  case (run i r p)
  have same: "holds ((threads s)[i := Finishing p] ! j) q \<longleftrightarrow> holds (threads s ! j) q"
    if "j < length (threads s)" for j q
    using that run by (cases "j = i") simp_all
  show ?thesis
  proof (rule held_invI)
    fix j q assume h: "j < length (threads s')" "holds (threads s' ! j) q"
    with run same have h': "j < length (threads s)" "holds (threads s ! j) q" by simp_all
    from held_invD [OF assms(2) h'] run show
      "\<not> finished (heap s' ! q) \<and> (\<exists>n. map_of (tasks s') n = Some q)" by auto
  next
    fix j k q assume h: "j < length (threads s')" "k < length (threads s')"
      "holds (threads s' ! j) q" "holds (threads s' ! k) q"
    with run same have "j < length (threads s)" "k < length (threads s)"
      "holds (threads s ! j) q" "holds (threads s ! k) q" by simp_all
    then show "j = k" by (rule held_inv_unique [OF assms(2)])
  qed
next
  case (mark i p)
  have ip: "holds (threads s ! i) p" using mark by simp
  show ?thesis
  proof (rule held_invI)
    fix j q assume h: "j < length (threads s')" "holds (threads s' ! j) q"
    with mark have ji: "j \<noteq> i" by (auto simp: nth_list_update split: if_splits)
    with h mark have h': "j < length (threads s)" "holds (threads s ! j) q" by simp_all
    from held_inv_unique [OF assms(2) h'(1) mark(2) h'(2)] ip ji have "q \<noteq> p" by auto
    with held_invD [OF assms(2) h'] mark show
      "\<not> finished (heap s' ! q) \<and> (\<exists>n. map_of (tasks s') n = Some q)" by auto
  next
    fix j k q assume h: "j < length (threads s')" "k < length (threads s')"
      "holds (threads s' ! j) q" "holds (threads s' ! k) q"
    with mark have "j \<noteq> i" "k \<noteq> i" by (auto simp: nth_list_update split: if_splits)
    with h mark held_inv_unique [OF assms(2), of j k q] show "j = k" by simp
  qed
next
  case (take_exit i)
  have same: "holds ((threads s)[i := Exited] ! j) q \<longleftrightarrow> holds (threads s ! j) q"
    if "j < length (threads s)" for j q
    using that take_exit by (cases "j = i") simp_all
  with take_exit assms(2) show ?thesis by (simp add: held_inv_def)
next
  case (join_exited k)
  have same: "holds ((threads s)[k := Joined] ! j) q \<longleftrightarrow> holds (threads s ! j) q"
    if "j < length (threads s)" for j q
    using that join_exited by (cases "j = k") simp_all
  with join_exited assms(2) show ?thesis by (simp add: held_inv_def)
next
  case (wait_suspend name p)
  with assms(2) show ?thesis by (simp add: held_inv_def)
qed (use assms(2) in \<open>simp_all add: held_inv_def\<close>)

lemma exited_inv_step:
  assumes "next_state (step s a) = Some s'" and "exited_inv s"
  shows "exited_inv s'"
  using assms(1)
  by (cases rule: step_cases)
     (use assms(2) in \<open>auto simp: exited_inv_def nth_list_update split: if_splits\<close>)

lemma joining_inv_step:
  assumes "next_state (step s a) = Some s'" and "joining_inv s"
  shows "joining_inv s'"
  using assms(1)
  by (cases rule: step_cases)
     (use assms(2) in \<open>auto simp: joining_inv_def nth_list_update less_Suc_eq split: if_splits\<close>)

lemma joined_inv_step:
  assumes "next_state (step s a) = Some s'" and "joined_inv s" and "joining_inv s"
  shows "joined_inv s'"
  using assms(1)
  by (cases rule: step_cases)
     (use assms(2,3) in \<open>auto simp: joined_inv_def joining_inv_def nth_list_update split: if_splits\<close>)

lemma wait_inv_step:
  assumes "next_state (step s a) = Some s'" and "obeys s a" and "wait_inv s"
    and "registry_inv s"
  shows "wait_inv s'"
  using assms(1)
proof (cases rule: step_cases)
  case (submit_new name t)
  with assms(2,3) show ?thesis
    by (auto simp: wait_inv_def update_conv' nth_append intro: less_SucI)
next
  case (wait_now name p)
  with assms(2,3) show ?thesis
    by (auto simp: wait_inv_def delete_conv')
next
  case (wait_suspend name p)
  with assms(2-) show ?thesis
    by (auto simp: wait_inv_def registry_inv_def)
next
  case (wake name p)
  have "(name, q) \<in> set (waiting s) \<longleftrightarrow> q = p" for q
  proof
    assume "(name, q) \<in> set (waiting s)"
    with assms(3) have "map_of (tasks s) name = Some q" by (simp add: wait_inv_def)
    with wake(4) show "q = p" by simp
  next
    assume "q = p"
    with wake(2) show "(name, q) \<in> set (waiting s)" by simp
  qed
  with wake assms(3) show ?thesis
    by (auto simp: wait_inv_def delete_conv')
qed (use assms(2,3) in \<open>auto simp: wait_inv_def\<close>)

lemma task_inj:
  assumes "own_inv s" and "registry_inv s"
    and "map_of (tasks s) n = Some a" and "map_of (tasks s) m = Some b"
    and "task (heap s ! a) = task (heap s ! b)"
  shows "n = m"
proof -
  from assms(2-4) have len: "a < length (heap s)" "b < length (heap s)"
    by (auto simp: registry_inv_def)
  with assms(5) have "map task (heap s) ! a = map task (heap s) ! b" by simp
  moreover from assms(1) have "distinct (map task (heap s))" by (simp add: own_inv_def)
  ultimately have "a = b"
    using len nth_eq_iff_index_eq [of "map task (heap s)" a b] by simp
  with assms(2-4) show ?thesis
    by (auto simp: registry_inv_def)
qed

lemma own_inv_step:
  assumes "next_state (step s a) = Some s'" and "obeys s a" and "own_inv s"
    and "registry_inv s"
  shows "own_inv s'"
  using assms(1)
proof (cases rule: step_cases)
  case (submit_dup name t p)
  with assms(2-) show ?thesis
    by (auto simp: own_inv_def registry_inv_def)
next
  case (submit_new name t)
  with assms(2-) show ?thesis
    by (auto simp: own_inv_def registry_inv_def update_conv' nth_append)
next
  case (wait_now name p)
  have "task (heap s ! q) \<noteq> task (heap s ! p)"
    if "map_of (tasks s) n = Some q" "n \<noteq> name" for n q
    using task_inj [OF assms(3,4) that(1) wait_now(2)] that(2) by blast
  with wait_now assms(3) show ?thesis
    by (auto simp: own_inv_def delete_conv')
next
  case (wake name p)
  have "task (heap s ! q) \<noteq> task (heap s ! p)"
    if "map_of (tasks s) n = Some q" "n \<noteq> name" for n q
    using task_inj [OF assms(3,4) that(1) wake(4)] that(2) by blast
  with wake assms(3) show ?thesis
    by (auto simp: own_inv_def delete_conv')
qed (use assms(2-) in \<open>auto simp: own_inv_def\<close>)

lemma length_threads_step:
  assumes "next_state (step s a) = Some s'"
  shows "length (threads s') = length (threads s)"
  using assms by (cases rule: step_cases) auto

lemma stopping_step:
  assumes "next_state (step s a) = Some s'" and "stopping s"
  shows "stopping s'"
  using assms by (cases rule: step_cases) auto

lemma leak_inv_step:
  assumes "next_state (step s a) = Some s'" and "leak_inv s"
  shows "leak_inv s'"
  using assms(1)
proof (cases rule: step_cases)
  case (submit_new name t)
  have "map_of (tasks s') n = Some q" if "map_of (tasks s) n = Some q" for n q
    using that submit_new by (auto simp: update_conv')
  then have "\<exists>m. map_of (tasks s') m = Some q" if "map_of (tasks s) n = Some q" for n q
    using that by blast
  moreover have "map_of (tasks s') name = Some (length (heap s))"
    using submit_new by (simp add: update_conv')
  ultimately show ?thesis
    using submit_new assms(2)
    apply (auto simp: leak_inv_def nth_append less_Suc_eq)
    done
next
  case (wait_now name p)
  have "map_of (tasks s') n = Some q" if "map_of (tasks s) n = Some q" "q \<noteq> p" for n q
    using that wait_now by (auto simp: delete_conv')
  then have "\<exists>m. map_of (tasks s') m = Some q" if "map_of (tasks s) n = Some q" "q \<noteq> p" for n q
    using that by blast
  with wait_now assms(2) show ?thesis
    apply (auto simp: leak_inv_def)
    done
next
  case (wake name p)
  have "map_of (tasks s') n = Some q" if "map_of (tasks s) n = Some q" "q \<noteq> p" for n q
    using that wake by (auto simp: delete_conv')
  then have "\<exists>m. map_of (tasks s') m = Some q" if "map_of (tasks s) n = Some q" "q \<noteq> p" for n q
    using that by blast
  with wake assms(2) show ?thesis
    apply (auto simp: leak_inv_def)
    done
qed (use assms(2) in \<open>auto simp: leak_inv_def\<close>)

lemma executed_inv_step:
  assumes "next_state (step s a) = Some s'" and "executed_inv s" and "worker_inv s"
  shows "executed_inv s'"
  using assms(1)
proof (cases rule: step_cases)
  case (run i r p)
  with assms(3) have "p < length (heap s)" by (auto simp: worker_inv_def)
  with run assms(2) show ?thesis by (auto simp: executed_inv_def)
qed (use assms(2) in \<open>auto simp: executed_inv_def\<close>)

lemma keys_inv_step:
  assumes "next_state (step s a) = Some s'" and "keys_inv s"
  shows "keys_inv s'"
  using assms(1)
  by (cases rule: step_cases)
     (use assms(2) in \<open>auto simp: keys_inv_def distinct_update distinct_delete\<close>)

lemma pool_inv_step:
  assumes "next_state (step s a) = Some s'" and "pool_inv s"
  shows "pool_inv s'"
proof -
  from assms(1) have "length (threads s') = length (threads s)"
    by (rule length_threads_step)
  with assms(2) have "threads s' \<noteq> []" by (auto simp: pool_inv_def)
  with assms show ?thesis
    by (simp add: pool_inv_def registry_inv_step worker_inv_step queue_inv_step
          exited_inv_step joining_inv_step joined_inv_step leak_inv_step executed_inv_step
          keys_inv_step held_inv_step)
qed

lemma owner_inv_step:
  assumes "next_state (step s a) = Some s'" and "obeys s a" and "owner_inv s"
  shows "owner_inv s'"
proof -
  from assms(3) have inv: "pool_inv s" "wait_inv s" "own_inv s" "registry_inv s"
    by (simp_all add: owner_inv_def pool_inv_def)
  from assms(1) inv(1) have "pool_inv s'" by (rule pool_inv_step)
  moreover from assms(1,2) inv(2,4) have "wait_inv s'" by (rule wait_inv_step)
  moreover from assms(1,2) inv(3,4) have "own_inv s'" by (rule own_inv_step)
  ultimately show ?thesis by (simp add: owner_inv_def)
qed

subsection \<open>Interleavings keep the invariants and do not crash\<close>

lemma pool_inv_run:
  assumes "run s as = Return s'" and "pool_inv s"
  shows "pool_inv s'"
  using assms by (induction rule: run_induct) (auto intro: pool_inv_step)

lemma stopping_run:
  assumes "run s as = Return s'" and "stopping s"
  shows "stopping s'"
  using assms by (induction rule: run_induct) (auto intro: stopping_step)

lemma next_state_cases:
  obtains (moves) s' where "next_state r = Some s'"
    "r = Return s' \<or> (\<exists>e. r = Throw e s') \<or> r = Suspend s'"
  | (blocked) "r = Blocked" | (crash) "r = Crash"
  by (cases r) auto

lemma run_Cons_moves:
  assumes "next_state (step s a) = Some t"
  shows "run s (a # as) = run t as"
  using assms by (cases "step s a") auto

lemma conforms_Cons_moves:
  assumes "next_state (step s a) = Some t"
  shows "conforms s (a # as) \<longleftrightarrow> obeys s a \<and> conforms t as"
  using assms by (cases "step s a") auto

lemma run_conforms_induct [consumes 2, case_names init step]:
  assumes "run s as = Return s'" and "conforms s as"
    and "P s"
    and "\<And>s a s'. P s \<Longrightarrow> obeys s a \<Longrightarrow> next_state (step s a) = Some s' \<Longrightarrow> P s'"
  shows "P s'"
  using assms(1-3)
proof (induction as arbitrary: s)
  case Nil
  then show ?case by simp
next
  case (Cons a as)
  show ?case
  proof (cases "step s a" rule: next_state_cases)
    case (moves t)
    from Cons.prems(1,2) have "run t as = Return s'" "obeys s a" "conforms t as"
      unfolding run_Cons_moves [OF moves(1)] conforms_Cons_moves [OF moves(1)] by simp_all
    moreover from Cons.prems(3) \<open>obeys s a\<close> moves(1) have "P t"
      by (rule assms(4))
    ultimately show ?thesis using Cons.IH [of t] by simp
  next
    case blocked
    with Cons.prems show ?thesis by simp
  next
    case crash
    with Cons.prems show ?thesis by simp
  qed
qed

lemma owner_inv_run:
  assumes "run s as = Return s'" and "conforms s as" and "owner_inv s"
  shows "owner_inv s'"
  using assms by (induction rule: run_conforms_induct) (auto intro: owner_inv_step)

lemma take_no_crash:
  assumes "queue_inv s"
  shows "WorkerLoop_take s i \<noteq> Crash"
proof (cases "queue s")
  case Nil
  then show ?thesis by (simp add: WorkerLoop_take_def)
next
  case (Cons name rest)
  with assms obtain p where "map_of (tasks s) name = Some p"
    by (auto simp: queue_inv_def)
  with Cons show ?thesis by (simp add: WorkerLoop_take_def)
qed

lemma wake_no_crash:
  assumes "wait_inv s"
  shows "WaitForTask_wake s name p \<noteq> Crash"
  using assms by (auto simp: WaitForTask_wake_def wait_inv_def)

lemma step_no_crash:
  assumes "owner_inv s"
  shows "step s a \<noteq> Crash"
proof (cases a)
  case (Submit name tp)
  then show ?thesis by (cases tp) (simp_all add: SubmitTask_def)
next
  case (Wait name)
  then show ?thesis
    by (cases "map_of (tasks s) name") (simp_all add: WaitForTask_def Let_def)
next
  case (Wake name p)
  with assms show ?thesis by (simp add: wake_no_crash owner_inv_def)
next
  case CallStop
  then show ?thesis by (simp add: Stop_def)
next
  case Join
  then show ?thesis
    by (cases "joining s"; cases "threads s ! the (joining s)") (simp_all add: Stop_join_def)
next
  case (Take i)
  with assms show ?thesis by (simp add: take_no_crash owner_inv_def pool_inv_def)
next
  case (Run i r)
  then show ?thesis
    by (cases "threads s ! i"; cases r) (simp_all add: WorkerLoop_run_def Let_def)
next
  case (Mark i)
  then show ?thesis
    by (cases "threads s ! i") (simp_all add: WorkerLoop_mark_def)
qed

lemma run_no_crash:
  assumes "conforms s as" and "owner_inv s"
  shows "run s as \<noteq> Crash"
  using assms
proof (induction as arbitrary: s)
  case Nil
  then show ?case by simp
next
  case (Cons a as)
  show ?case
  proof (cases "step s a" rule: next_state_cases)
    case (moves t)
    from Cons.prems(1) have "obeys s a" "conforms t as"
      unfolding conforms_Cons_moves [OF moves(1)] by simp_all
    moreover from moves(1) \<open>obeys s a\<close> Cons.prems(2) have "owner_inv t"
      by (rule owner_inv_step)
    ultimately have "run t as \<noteq> Crash" using Cons.IH [of t] by simp
    then show ?thesis unfolding run_Cons_moves [OF moves(1)] .
  next
    case blocked
    then show ?thesis by simp
  next
    case crash
    with step_no_crash [OF Cons.prems(2)] show ?thesis by simp
  qed
qed

lemma owner_inv_ctor:
  assumes "ThreadPool_ctor n = Inr s"
  shows "owner_inv s"
proof -
  from assms have n: "0 < n" and s: "s = \<lparr> stopping = False, queue = [], tasks = [],
      threads = replicate (nat n) Idle,
      heap = [], waiting = [], joining = None, executed = [], deleted = [] \<rparr>"
    by (auto simp: ThreadPool_ctor_def start_threads_eq split: if_splits)
  from n have "replicate (nat n) Idle \<noteq> []" by simp
  with s show ?thesis
    by (simp add: owner_inv_def pool_inv_def registry_inv_def worker_inv_def queue_inv_def
          exited_inv_def joining_inv_def joined_inv_def leak_inv_def executed_inv_def
          keys_inv_def held_inv_def wait_inv_def own_inv_def)
qed

subsection \<open>Tasks the pool does not hold\<close>

lemma frozen_step:
  assumes "next_state (step s a) = Some s'" and "stopping s"
    and "registry_inv s" and "worker_inv s"
  shows "map task (heap s') = map task (heap s) \<and>
    set (executed s') \<subseteq> set (executed s) \<union> set (map task (heap s)) \<and>
    set (deleted s') \<subseteq> set (deleted s) \<union> set (map task (heap s))"
  using assms(1)
proof (cases rule: step_cases)
  case (wait_now name p)
  with assms(3) have "p < length (heap s)" by (auto simp: registry_inv_def)
  with wait_now show ?thesis by auto
next
  case (wake name p)
  with assms(3) have "p < length (heap s)" by (auto simp: registry_inv_def)
  with wake show ?thesis by auto
next
  case (run i r p)
  with assms(4) have "p < length (heap s)" by (auto simp: worker_inv_def)
  with run show ?thesis by auto
qed (use assms(2) in auto)

lemma frozen_run:
  assumes "run s as = Return s'" and "stopping s" and "pool_inv s"
  shows "map task (heap s') = map task (heap s) \<and>
    set (executed s') \<subseteq> set (executed s) \<union> set (map task (heap s)) \<and>
    set (deleted s') \<subseteq> set (deleted s) \<union> set (map task (heap s))"
proof -
  let ?P = "\<lambda>u. stopping u \<and> pool_inv u \<and> map task (heap u) = map task (heap s) \<and>
    set (executed u) \<subseteq> set (executed s) \<union> set (map task (heap s)) \<and>
    set (deleted u) \<subseteq> set (deleted s) \<union> set (map task (heap s))"
  from assms(1) have "?P s'"
  proof (induction rule: run_induct)
    case init
    from assms(2,3) show ?case by simp
  next
    case (step u a u')
    then have "registry_inv u" "worker_inv u" by (simp_all add: pool_inv_def)
    from frozen_step [OF step(2) _ this] step(1)
    have "map task (heap u') = map task (heap u) \<and>
      set (executed u') \<subseteq> set (executed u) \<union> set (map task (heap u)) \<and>
      set (deleted u') \<subseteq> set (deleted u) \<union> set (map task (heap u))" by simp
    moreover from step have "stopping u'" "pool_inv u'"
      by (auto intro: stopping_step pool_inv_step)
    ultimately show ?case using step(1) by auto
  qed
  then show ?thesis by simp
qed



subsection \<open>Reachable states\<close>

lemmas eval_defs = ThreadPool_ctor_def start_threads_eq SubmitTask_def WaitForTask_def
  WaitForTask_wake_def reclaim_def WorkerLoop_take_def WorkerLoop_run_def
  WorkerLoop_mark_def Stop_def Stop_join_def release_all_def ThreadPool_dtor_def Let_def

lemma reachable_inv:
  assumes "ThreadPool_ctor n = Inr s0" and "run s0 as = Return s"
  shows "pool_inv s"
  using assms by (auto intro: pool_inv_run owner_inv_ctor [unfolded owner_inv_def, THEN conjunct1])

lemma reachable_owner_inv:
  assumes "ThreadPool_ctor n = Inr s0" and "run s0 as = Return s" and "conforms s0 as"
  shows "owner_inv s"
  using assms by (auto intro: owner_inv_run owner_inv_ctor)

subsection \<open>Queued tasks are run; registered tasks are released\<close>

lemma accounted_step:
  assumes "next_state (step s a) = Some s'" and "queue_inv s" and "accounted s q t"
  shows "accounted s' q t"
  using assms(1)
proof (cases rule: step_cases)
  case (submit_new name u)
  have "map_of (tasks s') n = Some q" if "map_of (tasks s) n = Some q" for n
    using that submit_new by (auto simp: update_conv')
  with submit_new assms(3) show ?thesis
    by (auto simp: accounted_def nth_append)
next
  case (wait_now name p)
  have "map_of (tasks s') n = Some q" if "map_of (tasks s) n = Some q" "n \<in> set (queue s)" for n
    using that wait_now assms(2) by (auto simp: delete_conv' queue_inv_def)
  with wait_now assms(3) show ?thesis
    by (auto simp: accounted_def)
next
  case (wake name p)
  have "map_of (tasks s') n = Some q" if "map_of (tasks s) n = Some q" "n \<in> set (queue s)" for n
    using that wake assms(2) by (auto simp: delete_conv' queue_inv_def)
  with wake assms(3) show ?thesis
    by (auto simp: accounted_def)
next
  case (take_task i name rest p)
  with assms(3) show ?thesis
    by (auto simp: accounted_def in_set_update_iff)
next
  case (run i r p)
  with assms(3) show ?thesis
    by (cases "p = q") (auto simp: accounted_def in_set_update_iff)
next
  case (mark i p)
  with assms(3) show ?thesis
    by (auto simp: accounted_def in_set_update_iff)
next
  case (take_exit i)
  with assms(3) show ?thesis
    by (auto simp: accounted_def in_set_update_iff)
next
  case (join_exited k)
  with assms(3) show ?thesis
    by (auto simp: accounted_def in_set_update_iff)
qed (use assms(3) in \<open>auto simp: accounted_def\<close>)

lemma accounted_run:
  assumes "run s as = Return s'" and "pool_inv s" and "accounted s q t"
  shows "accounted s' q t"
proof -
  from assms(1) have "pool_inv s' \<and> accounted s' q t"
  proof (induction rule: run_induct)
    case init
    from assms(2,3) show ?case by simp
  next
    case (step u a u')
    then have "queue_inv u" by (simp add: pool_inv_def)
    with step show ?case by (auto intro: pool_inv_step accounted_step)
  qed
  then show ?thesis by simp
qed

lemma queued_accounted:
  assumes "pool_inv s" and "name \<in> set (queue s)"
  shows "\<exists>a. map_of (tasks s) name = Some a \<and> accounted s a (task (heap s ! a))"
proof -
  from assms obtain a where a: "map_of (tasks s) name = Some a"
    by (auto simp: pool_inv_def queue_inv_def)
  with assms(1) have "a < length (heap s)" by (auto simp: pool_inv_def registry_inv_def)
  with a assms(2) have "accounted s a (task (heap s ! a))" by (auto simp: accounted_def)
  with a show ?thesis by blast
qed

lemma accounted_done:
  assumes "accounted s a t" and "queue s = []" and "\<forall>w \<in> set (threads s). w = Joined"
  shows "t \<in> set (executed s) \<and> t \<in> set (map task (heap s))"
  using assms by (auto simp: accounted_def)

lemma all_joined_queue_empty:
  assumes "pool_inv s" and "\<forall>w \<in> set (threads s). w = Joined"
  shows "queue s = [] \<and> stopping s"
proof -
  from assms(1) have "threads s \<noteq> []" and e: "exited_inv s" by (simp_all add: pool_inv_def)
  then have "0 < length (threads s)" by simp
  moreover from this assms(2) have "threads s ! 0 = Joined" by (simp add: nth_mem)
  ultimately show ?thesis using e by (auto simp: exited_inv_def)
qed

lemma returned_all_joined:
  assumes "pool_inv s" and "stopping s" and "joining s = None"
  shows "\<forall>w \<in> set (threads s). w = Joined"
  using assms by (auto simp: pool_inv_def joined_inv_def in_set_conv_nth)

lemma release_all_joined:
  assumes "\<forall>w \<in> set (threads s). w = Joined"
  shows "release_all s =
    Return (s\<lparr>deleted := deleted s @ map (\<lambda>kv. task (heap s ! snd kv)) (tasks s), tasks := []\<rparr>)"
  using assms by (auto simp: release_all_def)

lemma release_all_Return:
  assumes "release_all s = Return s'"
  shows "(\<forall>w \<in> set (threads s). w = Joined) \<and>
    s' = s\<lparr>deleted := deleted s @ map (\<lambda>kv. task (heap s ! snd kv)) (tasks s), tasks := []\<rparr>"
  using assms by (auto simp: release_all_def split: if_splits)

lemma registered_tasks_distinct:
  assumes "owner_inv s"
  shows "distinct (map (\<lambda>kv. task (heap s ! snd kv)) (tasks s))"
proof -
  from assms have k: "distinct (map fst (tasks s))" and o: "own_inv s" and r: "registry_inv s"
    by (simp_all add: owner_inv_def pool_inv_def keys_inv_def)
  from k have d: "distinct (tasks s)" by (simp add: distinct_map)
  have "inj_on (\<lambda>kv. task (heap s ! snd kv)) (set (tasks s))"
  proof (rule inj_onI)
    fix x y
    assume x: "x \<in> set (tasks s)" and y: "y \<in> set (tasks s)"
      and eq: "task (heap s ! snd x) = task (heap s ! snd y)"
    from k x have mx: "map_of (tasks s) (fst x) = Some (snd x)" by simp
    from k y have my: "map_of (tasks s) (fst y) = Some (snd y)" by simp
    from task_inj [OF o r mx my eq] have "fst x = fst y" .
    with mx my show "x = y" by (simp add: prod_eq_iff)
  qed
  with d show ?thesis by (simp add: distinct_map)
qed

lemma release_all_props:
  assumes "owner_inv s" and "release_all s = Return s'"
  shows "tasks s' = [] \<and> queue s' = queue s \<and> executed s' = executed s \<and>
    heap s' = heap s \<and> threads s' = threads s \<and>
    set (map task (heap s)) \<subseteq> set (deleted s') \<and> distinct (deleted s')"
proof -
  from release_all_Return [OF assms(2)]
  have s': "s' = s\<lparr>deleted := deleted s @ map (\<lambda>kv. task (heap s ! snd kv)) (tasks s),
      tasks := []\<rparr>" by simp
  from assms(1) have l: "leak_inv s" and o: "own_inv s"
    by (simp_all add: owner_inv_def pool_inv_def)
  have sub: "task (heap s ! a) \<in> set (deleted s')" if "a < length (heap s)" for a
  proof -
    from l that consider n where "map_of (tasks s) n = Some a"
      | "task (heap s ! a) \<in> set (deleted s)"
      by (auto simp: leak_inv_def)
    then show ?thesis
    proof cases
      case 1
      then have "(n, a) \<in> set (tasks s)" by (rule map_of_SomeD)
      then have "task (heap s ! snd (n, a)) \<in> (\<lambda>kv. task (heap s ! snd kv)) ` set (tasks s)"
        by (rule imageI)
      with s' show ?thesis by simp
    next
      case 2
      with s' show ?thesis by simp
    qed
  qed
  have "set (map task (heap s)) \<subseteq> set (deleted s')"
  proof
    fix t assume "t \<in> set (map task (heap s))"
    then obtain a where "a < length (heap s)" "t = task (heap s ! a)"
      by (auto simp: in_set_conv_nth)
    with sub show "t \<in> set (deleted s')" by simp
  qed
  moreover have "distinct (deleted s')"
  proof -
    from o have "distinct (deleted s)" by (simp add: own_inv_def)
    moreover note registered_tasks_distinct [OF assms(1)]
    moreover have "task (heap s ! snd kv) \<notin> set (deleted s)" if "kv \<in> set (tasks s)" for kv
    proof -
      from assms(1) have "distinct (map fst (tasks s))"
        by (simp add: owner_inv_def pool_inv_def keys_inv_def)
      with that have "map_of (tasks s) (fst kv) = Some (snd kv)" by simp
      with o show ?thesis by (simp add: own_inv_def)
    qed
    ultimately show ?thesis using s' by auto
  qed
  ultimately show ?thesis using s' by simp
qed

subsection \<open>A stopping pool shuts down\<close>

lemma weight_update:
  assumes "i < length ws"
  shows "sum_list (map weight (ws[i := w])) + weight (ws ! i) = sum_list (map weight ws) + weight w"
proof -
  from assms have "weight (ws ! i) \<le> sum_list (map weight ws)"
    using member_le_sum_list [of "weight (ws ! i)" "map weight ws"] by simp
  with assms show ?thesis
    by (simp add: map_update sum_list_update)
qed

lemma worker_cases:
  obtains (running) i p where "i < length ws" "ws ! i = Running p"
  | (finishing) i p where "i < length ws" "ws ! i = Finishing p"
  | (idle) i where "i < length ws" "ws ! i = Idle"
  | (gone) "\<forall>i < length ws. ws ! i = Exited \<or> ws ! i = Joined"
proof -
  have "(\<exists>i p. i < length ws \<and> ws ! i = Running p) \<or>
      (\<exists>i p. i < length ws \<and> ws ! i = Finishing p) \<or>
      (\<exists>i. i < length ws \<and> ws ! i = Idle) \<or>
      (\<forall>i < length ws. ws ! i = Exited \<or> ws ! i = Joined)"
    by (metis worker.exhaust)
  then show ?thesis using that by blast
qed

lemma progress:
  assumes "pool_inv s" and "stopping s" and "joining s = Some k"
  shows "\<exists>a s'. next_state (step s a) = Some s' \<and> obeys s a \<and> remaining s' < remaining s"
proof (cases "threads s" rule: worker_cases)
  case (running i p)
  let ?s' = "s\<lparr>executed := executed s @ [task (heap s ! p)],
      threads := (threads s)[i := Finishing p]\<rparr>"
  from running have "next_state (step s (Run i Completes)) = Some ?s'"
    by (simp add: WorkerLoop_run_def)
  moreover from weight_update [OF running(1), of "Finishing p"] running(2) assms(3)
  have "remaining ?s' < remaining s" by (simp add: remaining_def)
  ultimately show ?thesis by (intro exI [of _ "Run i Completes"] exI [of _ ?s']) simp
next
  case (finishing i p)
  let ?s' = "s\<lparr>heap := (heap s)[p := (heap s ! p)\<lparr>finished := True\<rparr>],
      threads := (threads s)[i := Idle]\<rparr>"
  from finishing have "next_state (step s (Mark i)) = Some ?s'"
    by (simp add: WorkerLoop_mark_def)
  moreover from weight_update [OF finishing(1), of Idle] finishing(2) assms(3)
  have "remaining ?s' < remaining s" by (simp add: remaining_def)
  ultimately show ?thesis by (intro exI [of _ "Mark i"] exI [of _ ?s']) simp
next
  case (idle i)
  show ?thesis
  proof (cases "queue s")
    case Nil
    let ?s' = "s\<lparr>threads := (threads s)[i := Exited]\<rparr>"
    from idle Nil assms(2) have "next_state (step s (Take i)) = Some ?s'"
      by (simp add: WorkerLoop_take_def)
    moreover from weight_update [OF idle(1), of Exited] idle(2) assms(3)
    have "remaining ?s' < remaining s" by (simp add: remaining_def)
    ultimately show ?thesis by (intro exI [of _ "Take i"] exI [of _ ?s']) simp
  next
    case (Cons name rest)
    with assms(1) obtain p where p: "map_of (tasks s) name = Some p"
      by (auto simp: pool_inv_def queue_inv_def)
    let ?s' = "s\<lparr>queue := rest, heap := (heap s)[p := (heap s ! p)\<lparr>started := True\<rparr>],
      threads := (threads s)[i := Running p]\<rparr>"
    from idle Cons p have "next_state (step s (Take i)) = Some ?s'"
      by (simp add: WorkerLoop_take_def)
    moreover from weight_update [OF idle(1), of "Running p"] idle(2) assms(3) Cons
    have "remaining ?s' < remaining s" by (simp add: remaining_def)
    ultimately show ?thesis by (intro exI [of _ "Take i"] exI [of _ ?s']) simp
  qed
next
  case gone
  show ?thesis
  proof (cases "k < length (threads s)")
    case True
    with gone consider "threads s ! k = Exited" | "threads s ! k = Joined" by blast
    then show ?thesis
    proof cases
      case 1
      let ?s' = "s\<lparr>threads := (threads s)[k := Joined], joining := Some (k + 1)\<rparr>"
      from 1 True assms(3) have "next_state (step s Join) = Some ?s'"
        by (simp add: Stop_join_def)
      moreover from weight_update [OF True, of Joined] 1 assms(3) True
      have "remaining ?s' < remaining s" by (simp add: remaining_def)
      ultimately show ?thesis by (intro exI [of _ Join] exI [of _ ?s']) simp
    next
      case 2
      let ?s' = "s\<lparr>joining := Some (k + 1)\<rparr>"
      from 2 True assms(3) have "next_state (step s Join) = Some ?s'"
        by (simp add: Stop_join_def)
      moreover from assms(3) True have "remaining ?s' < remaining s"
        by (simp add: remaining_def)
      ultimately show ?thesis by (intro exI [of _ Join] exI [of _ ?s']) simp
    qed
  next
    case False
    let ?s' = "s\<lparr>joining := None\<rparr>"
    from False assms(3) have "next_state (step s Join) = Some ?s'"
      by (simp add: Stop_join_def)
    moreover from assms(3) have "remaining ?s' < remaining s"
      by (simp add: remaining_def)
    ultimately show ?thesis by (intro exI [of _ Join] exI [of _ ?s']) simp
  qed
qed

lemma shutdown_completes:
  assumes "pool_inv s" and "stopping s" and "joining s \<noteq> None"
  shows "\<exists>as s'. run s as = Return s' \<and> conforms s as \<and> joining s' = None"
  using assms
proof (induction "remaining s" arbitrary: s rule: less_induct)
  case less
  from less.prems(3) obtain k where "joining s = Some k" by auto
  from progress [OF less.prems(1,2) this] obtain a s1 where
    a: "next_state (step s a) = Some s1" "obeys s a" "remaining s1 < remaining s"
    by blast
  show ?case
  proof (cases "joining s1")
    case None
    from a(1,2) have "run s [a] = Return s1" "conforms s [a]"
      unfolding run_Cons_moves [OF a(1)] conforms_Cons_moves [OF a(1)] by simp_all
    with None show ?thesis by blast
  next
    case (Some k1)
    from a(1) less.prems(1) have "pool_inv s1" by (rule pool_inv_step)
    moreover from a(1) less.prems(2) have "stopping s1" by (rule stopping_step)
    moreover from Some have "joining s1 \<noteq> None" by simp
    ultimately obtain as s' where
      as: "run s1 as = Return s'" "conforms s1 as" "joining s' = None"
      using less.hyps [OF a(3)] by blast
    from as(1,2) a(2) have "run s (a # as) = Return s'" "conforms s (a # as)"
      unfolding run_Cons_moves [OF a(1)] conforms_Cons_moves [OF a(1)] by simp_all
    with as(3) show ?thesis by blast
  qed
qed

lemma stop_completes:
  assumes "pool_inv s" and "\<not> stopping s"
  shows "\<exists>as s'. run s (CallStop # as) = Return s' \<and> conforms s (CallStop # as) \<and>
     joining s' = None \<and> (\<forall>w \<in> set (threads s'). w = Joined) \<and> queue s' = []"
proof -
  let ?s1 = "s\<lparr>stopping := True, joining := Some 0\<rparr>"
  from assms(2) have st: "next_state (step s CallStop) = Some ?s1"
    by (simp add: Stop_def)
  from st assms(1) have p1: "pool_inv ?s1" by (rule pool_inv_step)
  from shutdown_completes [OF p1] obtain as s' where
    as: "run ?s1 as = Return s'" "conforms ?s1 as" "joining s' = None"
    by auto
  from as(1,2) have r: "run s (CallStop # as) = Return s'" "conforms s (CallStop # as)"
    unfolding run_Cons_moves [OF st] conforms_Cons_moves [OF st] by simp_all
  from as(1) p1 have p': "pool_inv s'" by (rule pool_inv_run)
  moreover from as(1) have "stopping s'" by (rule stopping_run) simp
  ultimately have j: "\<forall>w \<in> set (threads s'). w = Joined"
    using as(3) by (rule returned_all_joined)
  with p' have "queue s' = []" by (auto dest: all_joined_queue_empty)
  with r as(3) j show ?thesis by blast
qed

section \<open>Construction\<close>

text \<open>
  C7.  Construction fails with InvalidConfiguration exactly when the thread count is at
  most zero; otherwise it yields a pool with exactly that many worker loops, all at the
  top of their loop, an empty queue and an empty registry, not stopping.
\<close>

theorem ctor_spec:
  "(ThreadPool_ctor n = Inl InvalidConfiguration \<longleftrightarrow> n \<le> 0) \<and>
   ((\<exists>e. ThreadPool_ctor n = Inl e) \<longleftrightarrow> n \<le> 0) \<and>
   (0 < n \<longrightarrow> (\<exists>s. ThreadPool_ctor n = Inr s \<and> int (length (threads s)) = n \<and>
        (\<forall>w \<in> set (threads s). w = Idle) \<and> queue s = [] \<and> tasks s = [] \<and>
        \<not> stopping s \<and> executed s = [] \<and> deleted s = []))"
  by (auto simp: ThreadPool_ctor_def start_threads_eq)

theorem ctor_spec_witness:
  "(0::int) < 4 \<and>
   ThreadPool_ctor 4 = Inr \<lparr> stopping = False, queue = [], tasks = [],
      threads = [Idle, Idle, Idle, Idle], heap = [], waiting = [], joining = None,
      executed = [], deleted = [] \<rparr> \<and>
   ThreadPool_ctor 0 = Inl InvalidConfiguration \<and>
   ThreadPool_ctor (- 1) = Inl InvalidConfiguration"
  using ctor_spec [of 4] ctor_spec [of 0] ctor_spec [of "- 1"]
  by (auto simp: ThreadPool_ctor_def start_threads_eq numeral_eq_Suc)

section \<open>SubmitTask and Stop, one call at a time\<close>

text \<open>
  C10.  SubmitTask with a null task fails with NullTask and leaves the pool as it was,
  also on a pool that is stopping: the null test comes before the test of the flag.
\<close>

theorem submit_null_when_stopping:
  "SubmitTask s name None = Throw NullTask s \<and>
   SubmitTask (s\<lparr>stopping := True\<rparr>) name None = Throw NullTask (s\<lparr>stopping := True\<rparr>) \<and>
   SubmitTask (s\<lparr>stopping := True\<rparr>) name None \<noteq> Return (s\<lparr>stopping := True\<rparr>)"
  by (simp add: SubmitTask_def)

text \<open>
  C6.  On a stopping pool SubmitTask with a task returns without an error and leaves the
  whole pool as it was: registry, queue and records are unchanged, so the pool does not
  hold the task.  From then on the pool runs and deletes only tasks of records it already
  had: a task the caller still owns is never run and never deleted by the pool.
\<close>

theorem submit_when_stopping_is_noop:
  assumes "ThreadPool_ctor n = Inr s0" and "run s0 as = Return s" and "stopping s"
  shows "SubmitTask s name (Some t) = Return s \<and>
         (\<forall>as' s'. run s (Submit name (Some t) # as') = Return s' \<longrightarrow>
            map task (heap s') = map task (heap s) \<and>
            (t \<notin> set (map task (heap s)) \<longrightarrow>
               t \<notin> set (executed s') \<and> (t \<notin> set (deleted s) \<longrightarrow> t \<notin> set (deleted s'))))"
proof -
  from assms(1,2) have inv: "pool_inv s" by (rule reachable_inv)
  from assms(3) have 1: "SubmitTask s name (Some t) = Return s"
    by (simp add: SubmitTask_def)
  have 2: "map task (heap s') = map task (heap s) \<and>
      (t \<notin> set (map task (heap s)) \<longrightarrow>
         t \<notin> set (executed s') \<and> (t \<notin> set (deleted s) \<longrightarrow> t \<notin> set (deleted s')))"
    if "run s (Submit name (Some t) # as') = Return s'" for as' s'
  proof -
    from that 1 have "run s as' = Return s'" by simp
    from frozen_run [OF this assms(3) inv] inv show ?thesis
      by (auto simp: pool_inv_def executed_inv_def)
  qed
  from 1 2 show ?thesis by blast
qed

theorem submit_when_stopping_is_noop_witness:
  "ThreadPool_ctor 1 = Inr \<lparr> stopping = False, queue = [], tasks = [],
      threads = [Idle], heap = [], waiting = [], joining = None,
      executed = [], deleted = [] \<rparr> \<and>
   run \<lparr> stopping = False, queue = [], tasks = [],
      threads = [Idle], heap = [], waiting = [], joining = None,
      executed = [], deleted = [] \<rparr> [Submit ''a'' (Some 5), CallStop] =
   Return \<lparr> stopping = True, queue = [''a''], tasks = [(''a'', 0)],
      threads = [Idle],
      heap = [\<lparr>task = 5, started = False, finished = False, waited = False\<rparr>],
      waiting = [], joining = Some 0, executed = [], deleted = [] \<rparr> \<and>
   SubmitTask \<lparr> stopping = True, queue = [''a''], tasks = [(''a'', 0)],
      threads = [Idle],
      heap = [\<lparr>task = 5, started = False, finished = False, waited = False\<rparr>],
      waiting = [], joining = Some 0, executed = [], deleted = [] \<rparr> ''after-stop'' (Some 6) =
   Return \<lparr> stopping = True, queue = [''a''], tasks = [(''a'', 0)],
      threads = [Idle],
      heap = [\<lparr>task = 5, started = False, finished = False, waited = False\<rparr>],
      waiting = [], joining = Some 0, executed = [], deleted = [] \<rparr>"
proof -
  let ?init = "\<lparr> stopping = False, queue = [], tasks = [],
      threads = [Idle], heap = [], waiting = [], joining = None,
      executed = [], deleted = [] \<rparr>"
  let ?st = "\<lparr> stopping = True, queue = [''a''], tasks = [(''a'', 0)],
      threads = [Idle],
      heap = [\<lparr>task = 5, started = False, finished = False, waited = False\<rparr>],
      waiting = [], joining = Some 0, executed = [], deleted = [] \<rparr>"
  have c: "ThreadPool_ctor 1 = Inr ?init"
    by (simp add: eval_defs)
  have r: "run ?init [Submit ''a'' (Some 5), CallStop] = Return ?st"
    by (simp add: eval_defs)
  have "stopping ?st" by simp
  from submit_when_stopping_is_noop [OF c r this, of "''after-stop''" 6]
  have "SubmitTask ?st ''after-stop'' (Some 6) = Return ?st" by blast
  with c r show ?thesis by simp
qed



text \<open>
  C8.  On a pool whose stopping flag is set, Stop returns at once with the pool unchanged
  and without an error; the flag is never cleared, so this holds for every call of Stop
  after the first one, whatever the threads did in between.
\<close>

theorem stop_idempotent:
  "(stopping s \<longrightarrow> Stop s = Return s) \<and>
   (\<forall>s1 as s2. next_state (Stop s) = Some s1 \<and> run s1 as = Return s2 \<longrightarrow>
      Stop s2 = Return s2) \<and>
   (\<forall>e s1. Stop s \<noteq> Throw e s1) \<and> Stop s \<noteq> Crash \<and> Stop s \<noteq> Blocked"
proof -
  have 1: "Stop s2 = Return s2" if "next_state (Stop s) = Some s1" "run s1 as = Return s2"
    for s1 as s2
  proof -
    from that(1) have "stopping s1" by (auto simp: Stop_def split: if_splits)
    with that(2) have "stopping s2" by (rule stopping_run)
    then show ?thesis by (simp add: Stop_def)
  qed
  have 2: "stopping s \<longrightarrow> Stop s = Return s"
    "\<forall>e s1. Stop s \<noteq> Throw e s1" "Stop s \<noteq> Crash" "Stop s \<noteq> Blocked"
    by (simp_all add: Stop_def)
  from 1 2 show ?thesis by blast
qed

theorem stop_idempotent_witness:
  "Stop \<lparr> stopping = False, queue = [], tasks = [],
      threads = [Idle], heap = [], waiting = [], joining = None,
      executed = [], deleted = [] \<rparr> =
   Suspend \<lparr> stopping = True, queue = [], tasks = [],
      threads = [Idle], heap = [], waiting = [], joining = Some 0,
      executed = [], deleted = [] \<rparr> \<and>
   run \<lparr> stopping = True, queue = [], tasks = [],
      threads = [Idle], heap = [], waiting = [], joining = Some 0,
      executed = [], deleted = [] \<rparr> [Take 0, Join, Join] =
   Return \<lparr> stopping = True, queue = [], tasks = [],
      threads = [Joined], heap = [], waiting = [], joining = None,
      executed = [], deleted = [] \<rparr> \<and>
   Stop \<lparr> stopping = True, queue = [], tasks = [],
      threads = [Joined], heap = [], waiting = [], joining = None,
      executed = [], deleted = [] \<rparr> =
   Return \<lparr> stopping = True, queue = [], tasks = [],
      threads = [Joined], heap = [], waiting = [], joining = None,
      executed = [], deleted = [] \<rparr>"
proof -
  let ?init = "\<lparr> stopping = False, queue = [], tasks = [],
      threads = [Idle], heap = [], waiting = [], joining = None,
      executed = [], deleted = [] \<rparr>"
  let ?mid = "\<lparr> stopping = True, queue = [], tasks = [],
      threads = [Idle], heap = [], waiting = [], joining = Some 0,
      executed = [], deleted = [] \<rparr>"
  let ?fin = "\<lparr> stopping = True, queue = [], tasks = [],
      threads = [Joined], heap = [], waiting = [], joining = None,
      executed = [], deleted = [] \<rparr>"
  have a: "Stop ?init = Suspend ?mid" by (simp add: eval_defs)
  then have a': "next_state (Stop ?init) = Some ?mid" by simp
  have b: "run ?mid [Take 0, Join, Join] = Return ?fin" by (simp add: eval_defs)
  from stop_idempotent [of ?init] a' b have "Stop ?fin = Return ?fin" by blast
  with a b show ?thesis by simp
qed

section \<open>WaitForTask\<close>

lemma reclaim_unregisters:
  "map_of (tasks (reclaim s name a)) name = None"
  "deleted (reclaim s name a) = deleted s @ [task (heap s ! a)]"
  "queue (reclaim s name a) = queue s" "executed (reclaim s name a) = executed s"
  by (simp_all add: reclaim_def delete_conv')

lemma WaitForTask_unknown:
  "map_of (tasks s) name = None \<Longrightarrow> WaitForTask s name = Throw (UnknownTaskName name) s"
  by (simp add: WaitForTask_def)

lemma task_stable_step:
  assumes "next_state (step s x) = Some s'" and "a < length (heap s)"
  shows "a < length (heap s') \<and> task (heap s' ! a) = task (heap s ! a)"
  using assms(1)
  by (cases rule: step_cases) (use assms(2) in \<open>auto simp: nth_append\<close>)

lemma task_stable_run:
  assumes "run s as = Return s'" and "a < length (heap s)"
  shows "a < length (heap s') \<and> task (heap s' ! a) = task (heap s ! a)"
proof -
  from assms(1) have "a < length (heap s') \<and> task (heap s' ! a) = task (heap s ! a)"
  proof (induction rule: run_induct)
    case init
    from assms(2) show ?case by simp
  next
    case (step u x u')
    from task_stable_step [OF step(2), of a] step(1) show ?case by simp
  qed
  then show ?thesis .
qed

lemma WaitForTask_finished:
  assumes "map_of (tasks s) name = Some a" and "finished (heap s ! a)"
  shows "WaitForTask s name =
    Return (s\<lparr>heap := (heap s)[a := (heap s ! a)\<lparr>waited := True\<rparr>],
              tasks := AList.delete name (tasks s),
              deleted := deleted s @ [task (heap s ! a)]\<rparr>)"
  using assms by (simp add: WaitForTask_def reclaim_def)

lemma WaitForTask_unfinished:
  assumes "map_of (tasks s) name = Some a" and "\<not> finished (heap s ! a)"
  shows "WaitForTask s name =
    Suspend (s\<lparr>heap := (heap s)[a := (heap s ! a)\<lparr>waited := True\<rparr>],
               waiting := waiting s @ [(name, a)]\<rparr>)"
  using assms by (simp add: WaitForTask_def)

lemma WaitForTask_wake_finished:
  assumes "(name, a) \<in> set (waiting s)" and "finished (heap s ! a)"
    and "map_of (tasks s) name = Some a"
  shows "WaitForTask_wake s name a =
    Return (s\<lparr>waiting := remove1 (name, a) (waiting s),
              tasks := AList.delete name (tasks s),
              deleted := deleted s @ [task (heap s ! a)]\<rparr>)"
  using assms by (simp add: WaitForTask_wake_def reclaim_def)

lemma waiter_reclaims:
  assumes "owner_inv s" and "(name, a) \<in> set (waiting s)"
  shows "map_of (tasks s) name = Some a \<and> task (heap s ! a) \<notin> set (deleted s) \<and>
    (\<not> finished (heap s ! a) \<longrightarrow> WaitForTask_wake s name a = Blocked) \<and>
    (finished (heap s ! a) \<longrightarrow>
       (\<exists>s'. WaitForTask_wake s name a = Return s' \<and> map_of (tasks s') name = None \<and>
          deleted s' = deleted s @ [task (heap s ! a)] \<and> distinct (deleted s') \<and>
          (name, a) \<notin> set (waiting s') \<and> WaitForTask_wake s' name a = Blocked \<and>
          WaitForTask s' name = Throw (UnknownTaskName name) s'))"
proof -
  from assms(1) have w: "wait_inv s" and o: "own_inv s" by (simp_all add: owner_inv_def)
  from w assms(2) have reg: "map_of (tasks s) name = Some a" and d: "distinct (waiting s)"
    by (simp_all add: wait_inv_def)
  from o reg have live: "task (heap s ! a) \<notin> set (deleted s)" by (simp add: own_inv_def)
  from o have dd: "distinct (deleted s)" by (simp add: own_inv_def)
  have fin: "\<exists>s'. WaitForTask_wake s name a = Return s' \<and> map_of (tasks s') name = None \<and>
      deleted s' = deleted s @ [task (heap s ! a)] \<and> distinct (deleted s') \<and>
      (name, a) \<notin> set (waiting s') \<and> WaitForTask_wake s' name a = Blocked \<and>
      WaitForTask s' name = Throw (UnknownTaskName name) s'" if f: "finished (heap s ! a)"
  proof -
    let ?s' = "s\<lparr>waiting := remove1 (name, a) (waiting s),
              tasks := AList.delete name (tasks s),
              deleted := deleted s @ [task (heap s ! a)]\<rparr>"
    from WaitForTask_wake_finished [OF assms(2) f reg]
    have r: "WaitForTask_wake s name a = Return ?s'" .
    have u: "map_of (tasks ?s') name = None" by (simp add: delete_conv')
    from d have nw: "(name, a) \<notin> set (waiting ?s')" by simp
    then have b: "WaitForTask_wake ?s' name a = Blocked" by (simp add: WaitForTask_wake_def)
    from dd live have "distinct (deleted ?s')" by simp
    with r u nw b WaitForTask_unknown [OF u] show ?thesis by simp
  qed
  from reg live fin show ?thesis by (simp add: WaitForTask_wake_def)
qed

lemma wait_then_reclaim:
  assumes "owner_inv s" and "obeys s (Wait name)"
    and "map_of (tasks s) name = Some a" and "WaitForTask s name = Suspend s1"
    and "run s1 as = Return s2" and "conforms s1 as" and "(name, a) \<in> set (waiting s2)"
  shows "map_of (tasks s2) name = Some a \<and> task (heap s2 ! a) = task (heap s ! a) \<and>
    task (heap s ! a) \<notin> set (deleted s2) \<and>
    (\<not> finished (heap s2 ! a) \<longrightarrow> WaitForTask_wake s2 name a = Blocked) \<and>
    (finished (heap s2 ! a) \<longrightarrow>
       (\<exists>s3. WaitForTask_wake s2 name a = Return s3 \<and> map_of (tasks s3) name = None \<and>
          deleted s3 = deleted s2 @ [task (heap s ! a)] \<and> distinct (deleted s3) \<and>
          (name, a) \<notin> set (waiting s3) \<and> WaitForTask_wake s3 name a = Blocked \<and>
          WaitForTask s3 name = Throw (UnknownTaskName name) s3))"
proof -
  from assms(4) have st: "next_state (step s (Wait name)) = Some s1" by simp
  from st assms(2,1) have o1: "owner_inv s1" by (rule owner_inv_step)
  from assms(5,6) o1 have o2: "owner_inv s2" by (rule owner_inv_run)
  from assms(1,3) have "a < length (heap s)"
    by (auto simp: owner_inv_def pool_inv_def registry_inv_def)
  from task_stable_step [OF st this] have "a < length (heap s1)"
    "task (heap s1 ! a) = task (heap s ! a)" by simp_all
  with task_stable_run [OF assms(5), of a]
  have t: "task (heap s2 ! a) = task (heap s ! a)" by simp
  from waiter_reclaims [OF o2 assms(7)] t show ?thesis by simp
qed

text \<open>
  C2.  WaitForTask throws UnknownTaskName exactly when the name is not registered, and
  then changes nothing.  When the name is registered, the call marks the record as waited
  on; if the record is already finished it returns at once, having removed the name from
  the registry and deleted the task, and otherwise it suspends, the caller being added to
  the waiters and nothing else being changed.  A suspended caller stays blocked while its
  record is unfinished.  When the call returns, at once or after the wait, the record was
  finished, the name is no longer registered, the task has been deleted, and a further
  WaitForTask on the name throws UnknownTaskName.

  In every state the pool reaches with callers that wait at most once per record and hand
  over live tasks, no task is deleted twice, and a waiter is still registered under its
  name with its own record, whose task has not been deleted: it is blocked as long as the
  record is unfinished, and once the record is finished it wakes, unregisters the name
  and deletes the task, this one time; after that it is no waiter any more, it cannot
  reclaim again, and WaitForTask on the name throws UnknownTaskName.  In particular, a
  caller that waits on a task before it has finished and is suspended keeps, whatever the
  pool and the other callers do meanwhile, the record and the task it waited for, and
  reclaims exactly that task when the record is finished.
\<close>

theorem wait_for_task_reclaims_once:
  "(WaitForTask s name = Throw (UnknownTaskName name) s \<longleftrightarrow> map_of (tasks s) name = None) \<and>
   ((\<exists>e s1. WaitForTask s name = Throw e s1) \<longleftrightarrow> map_of (tasks s) name = None) \<and>
   (\<forall>s'. WaitForTask s name = Return s' \<longrightarrow>
      (\<exists>a. map_of (tasks s) name = Some a \<and> finished (heap s ! a) \<and>
           map_of (tasks s') name = None \<and> deleted s' = deleted s @ [task (heap s ! a)] \<and>
           WaitForTask s' name = Throw (UnknownTaskName name) s')) \<and>
   (\<forall>s1. WaitForTask s name = Suspend s1 \<longrightarrow>
      (\<exists>a. map_of (tasks s) name = Some a \<and> \<not> finished (heap s ! a) \<and>
           (name, a) \<in> set (waiting s1) \<and> tasks s1 = tasks s \<and> deleted s1 = deleted s \<and>
           WaitForTask_wake s1 name a = Blocked)) \<and>
   (\<forall>a. \<not> finished (heap s ! a) \<longrightarrow> WaitForTask_wake s name a = Blocked) \<and>
   (\<forall>a s'. WaitForTask_wake s name a = Return s' \<longrightarrow>
      finished (heap s ! a) \<and> map_of (tasks s) name = Some a \<and>
      map_of (tasks s') name = None \<and> deleted s' = deleted s @ [task (heap s ! a)] \<and>
      WaitForTask s' name = Throw (UnknownTaskName name) s') \<and>
   (\<forall>n s0 as. ThreadPool_ctor n = Inr s0 \<and> run s0 as = Return s \<and> conforms s0 as \<longrightarrow>
      distinct (deleted s) \<and>
      (\<forall>a. (name, a) \<in> set (waiting s) \<and> finished (heap s ! a) \<longrightarrow>
         (\<exists>s'. WaitForTask_wake s name a = Return s'))) \<and>
   (\<forall>a. map_of (tasks s) name = Some a \<and> finished (heap s ! a) \<longrightarrow>
      WaitForTask s name =
        Return (s\<lparr>heap := (heap s)[a := (heap s ! a)\<lparr>waited := True\<rparr>],
                  tasks := AList.delete name (tasks s),
                  deleted := deleted s @ [task (heap s ! a)]\<rparr>)) \<and>
   (\<forall>a. map_of (tasks s) name = Some a \<and> \<not> finished (heap s ! a) \<longrightarrow>
      WaitForTask s name =
        Suspend (s\<lparr>heap := (heap s)[a := (heap s ! a)\<lparr>waited := True\<rparr>],
                   waiting := waiting s @ [(name, a)]\<rparr>)) \<and>
   (\<forall>a. (name, a) \<in> set (waiting s) \<and> finished (heap s ! a) \<and>
        map_of (tasks s) name = Some a \<longrightarrow>
      WaitForTask_wake s name a =
        Return (s\<lparr>waiting := remove1 (name, a) (waiting s),
                  tasks := AList.delete name (tasks s),
                  deleted := deleted s @ [task (heap s ! a)]\<rparr>)) \<and>
   (\<forall>n s0 as a. ThreadPool_ctor n = Inr s0 \<and> run s0 as = Return s \<and> conforms s0 as \<and>
        (name, a) \<in> set (waiting s) \<longrightarrow>
      map_of (tasks s) name = Some a \<and> task (heap s ! a) \<notin> set (deleted s) \<and>
      (\<not> finished (heap s ! a) \<longrightarrow> WaitForTask_wake s name a = Blocked) \<and>
      (finished (heap s ! a) \<longrightarrow>
         (\<exists>s'. WaitForTask_wake s name a = Return s' \<and> map_of (tasks s') name = None \<and>
            deleted s' = deleted s @ [task (heap s ! a)] \<and> distinct (deleted s') \<and>
            (name, a) \<notin> set (waiting s') \<and> WaitForTask_wake s' name a = Blocked \<and>
            WaitForTask s' name = Throw (UnknownTaskName name) s'))) \<and>
   (\<forall>n s0 as a s1 as' s2. ThreadPool_ctor n = Inr s0 \<and> run s0 as = Return s \<and>
        conforms s0 as \<and> obeys s (Wait name) \<and> map_of (tasks s) name = Some a \<and>
        WaitForTask s name = Suspend s1 \<and> run s1 as' = Return s2 \<and> conforms s1 as' \<and>
        (name, a) \<in> set (waiting s2) \<longrightarrow>
      map_of (tasks s2) name = Some a \<and> task (heap s2 ! a) = task (heap s ! a) \<and>
      task (heap s ! a) \<notin> set (deleted s2) \<and>
      (\<not> finished (heap s2 ! a) \<longrightarrow> WaitForTask_wake s2 name a = Blocked) \<and>
      (finished (heap s2 ! a) \<longrightarrow>
         (\<exists>s3. WaitForTask_wake s2 name a = Return s3 \<and> map_of (tasks s3) name = None \<and>
            deleted s3 = deleted s2 @ [task (heap s ! a)] \<and> distinct (deleted s3) \<and>
            (name, a) \<notin> set (waiting s3) \<and> WaitForTask_wake s3 name a = Blocked \<and>
            WaitForTask s3 name = Throw (UnknownTaskName name) s3)))"
proof -
  have 1: "WaitForTask s name = Throw (UnknownTaskName name) s \<longleftrightarrow> map_of (tasks s) name = None"
    by (cases "map_of (tasks s) name") (simp_all add: WaitForTask_def Let_def)
  have 2: "(\<exists>e s1. WaitForTask s name = Throw e s1) \<longleftrightarrow> map_of (tasks s) name = None"
    by (cases "map_of (tasks s) name") (simp_all add: WaitForTask_def Let_def)
  have 3: "\<exists>a. map_of (tasks s) name = Some a \<and> finished (heap s ! a) \<and>
      map_of (tasks s') name = None \<and> deleted s' = deleted s @ [task (heap s ! a)] \<and>
      WaitForTask s' name = Throw (UnknownTaskName name) s'"
    if "WaitForTask s name = Return s'" for s'
  proof -
    from that obtain a where a: "map_of (tasks s) name = Some a"
      by (cases "map_of (tasks s) name") (auto simp: WaitForTask_def)
    with that have f: "finished (heap s ! a)"
      and s': "s' = reclaim (s\<lparr>heap := (heap s)[a := (heap s ! a)\<lparr>waited := True\<rparr>]\<rparr>) name a"
      by (auto simp: WaitForTask_def Let_def split: if_splits)
    from s' have "map_of (tasks s') name = None" "deleted s' = deleted s @ [task (heap s ! a)]"
      by (simp_all add: reclaim_unregisters)
    with a f WaitForTask_unknown [of s' name] show ?thesis by simp
  qed
  have 4: "\<exists>a. map_of (tasks s) name = Some a \<and> \<not> finished (heap s ! a) \<and>
      (name, a) \<in> set (waiting s1) \<and> tasks s1 = tasks s \<and> deleted s1 = deleted s \<and>
      WaitForTask_wake s1 name a = Blocked"
    if "WaitForTask s name = Suspend s1" for s1
  proof -
    from that obtain a where a: "map_of (tasks s) name = Some a"
      by (cases "map_of (tasks s) name") (auto simp: WaitForTask_def)
    with that show ?thesis
      by (auto simp: WaitForTask_def WaitForTask_wake_def Let_def split: if_splits)
  qed
  have 5: "WaitForTask_wake s name a = Blocked" if "\<not> finished (heap s ! a)" for a
    using that by (simp add: WaitForTask_wake_def)
  have 6: "finished (heap s ! a) \<and> map_of (tasks s) name = Some a \<and>
      map_of (tasks s') name = None \<and> deleted s' = deleted s @ [task (heap s ! a)] \<and>
      WaitForTask s' name = Throw (UnknownTaskName name) s'"
    if "WaitForTask_wake s name a = Return s'" for a s'
  proof -
    from that have "next_state (WaitForTask_wake s name a) = Some s'" by simp
    from WaitForTask_wake_next [OF this]
    have f: "finished (heap s ! a)" "map_of (tasks s) name = Some a"
      and s': "s' = s\<lparr>waiting := remove1 (name, a) (waiting s),
              tasks := AList.delete name (tasks s),
              deleted := deleted s @ [task (heap s ! a)]\<rparr>"
      by simp_all
    from s' have "map_of (tasks s') name = None" "deleted s' = deleted s @ [task (heap s ! a)]"
      by (simp_all add: delete_conv')
    with f WaitForTask_unknown [of s' name] show ?thesis by simp
  qed
  have 7: "distinct (deleted s) \<and>
      (\<forall>a. (name, a) \<in> set (waiting s) \<and> finished (heap s ! a) \<longrightarrow>
         (\<exists>s'. WaitForTask_wake s name a = Return s'))"
    if "ThreadPool_ctor n = Inr s0" "run s0 as = Return s" "conforms s0 as" for n s0 as
  proof -
    from that have o: "owner_inv s" by (rule reachable_owner_inv)
    then have "distinct (deleted s)" and w: "wait_inv s"
      by (simp_all add: owner_inv_def own_inv_def)
    moreover have "\<exists>s'. WaitForTask_wake s name a = Return s'"
      if "(name, a) \<in> set (waiting s)" "finished (heap s ! a)" for a
      using that w by (simp add: WaitForTask_wake_def wait_inv_def)
    ultimately show ?thesis by blast
  qed
  have c1: "(WaitForTask s name = Throw (UnknownTaskName name) s \<longleftrightarrow> map_of (tasks s) name = None)"
    using 1 by blast
  have c2: "((\<exists>e s1. WaitForTask s name = Throw e s1) \<longleftrightarrow> map_of (tasks s) name = None)"
    using 2 by blast
  have c3: "(\<forall>s'. WaitForTask s name = Return s' \<longrightarrow>
      (\<exists>a. map_of (tasks s) name = Some a \<and> finished (heap s ! a) \<and>
           map_of (tasks s') name = None \<and> deleted s' = deleted s @ [task (heap s ! a)] \<and>
           WaitForTask s' name = Throw (UnknownTaskName name) s'))"
    using 3 by blast
  have c4: "(\<forall>s1. WaitForTask s name = Suspend s1 \<longrightarrow>
      (\<exists>a. map_of (tasks s) name = Some a \<and> \<not> finished (heap s ! a) \<and>
           (name, a) \<in> set (waiting s1) \<and> tasks s1 = tasks s \<and> deleted s1 = deleted s \<and>
           WaitForTask_wake s1 name a = Blocked))"
    using 4 by blast
  have c5: "(\<forall>a. \<not> finished (heap s ! a) \<longrightarrow> WaitForTask_wake s name a = Blocked)"
    using 5 by blast
  have c6: "(\<forall>a s'. WaitForTask_wake s name a = Return s' \<longrightarrow>
      finished (heap s ! a) \<and> map_of (tasks s) name = Some a \<and>
      map_of (tasks s') name = None \<and> deleted s' = deleted s @ [task (heap s ! a)] \<and>
      WaitForTask s' name = Throw (UnknownTaskName name) s')"
    using 6 by blast
  have c7: "(\<forall>n s0 as. ThreadPool_ctor n = Inr s0 \<and> run s0 as = Return s \<and> conforms s0 as \<longrightarrow>
      distinct (deleted s) \<and>
      (\<forall>a. (name, a) \<in> set (waiting s) \<and> finished (heap s ! a) \<longrightarrow>
         (\<exists>s'. WaitForTask_wake s name a = Return s')))"
    using 7 by blast
  have c8: "(\<forall>a. map_of (tasks s) name = Some a \<and> finished (heap s ! a) \<longrightarrow>
      WaitForTask s name =
        Return (s\<lparr>heap := (heap s)[a := (heap s ! a)\<lparr>waited := True\<rparr>],
                  tasks := AList.delete name (tasks s),
                  deleted := deleted s @ [task (heap s ! a)]\<rparr>))"
    using WaitForTask_finished by blast
  have c9: "(\<forall>a. map_of (tasks s) name = Some a \<and> \<not> finished (heap s ! a) \<longrightarrow>
      WaitForTask s name =
        Suspend (s\<lparr>heap := (heap s)[a := (heap s ! a)\<lparr>waited := True\<rparr>],
                   waiting := waiting s @ [(name, a)]\<rparr>))"
    using WaitForTask_unfinished by blast
  have c10: "(\<forall>a. (name, a) \<in> set (waiting s) \<and> finished (heap s ! a) \<and>
        map_of (tasks s) name = Some a \<longrightarrow>
      WaitForTask_wake s name a =
        Return (s\<lparr>waiting := remove1 (name, a) (waiting s),
                  tasks := AList.delete name (tasks s),
                  deleted := deleted s @ [task (heap s ! a)]\<rparr>))"
    using WaitForTask_wake_finished by blast
  have c11: "(\<forall>n s0 as a. ThreadPool_ctor n = Inr s0 \<and> run s0 as = Return s \<and> conforms s0 as \<and>
        (name, a) \<in> set (waiting s) \<longrightarrow>
      map_of (tasks s) name = Some a \<and> task (heap s ! a) \<notin> set (deleted s) \<and>
      (\<not> finished (heap s ! a) \<longrightarrow> WaitForTask_wake s name a = Blocked) \<and>
      (finished (heap s ! a) \<longrightarrow>
         (\<exists>s'. WaitForTask_wake s name a = Return s' \<and> map_of (tasks s') name = None \<and>
            deleted s' = deleted s @ [task (heap s ! a)] \<and> distinct (deleted s') \<and>
            (name, a) \<notin> set (waiting s') \<and> WaitForTask_wake s' name a = Blocked \<and>
            WaitForTask s' name = Throw (UnknownTaskName name) s')))"
  proof (intro allI impI)
    fix n s0 as a
    assume h: "ThreadPool_ctor n = Inr s0 \<and> run s0 as = Return s \<and> conforms s0 as \<and>
        (name, a) \<in> set (waiting s)"
    then have "owner_inv s" by (auto intro: reachable_owner_inv)
    from waiter_reclaims [OF this] h show
      "map_of (tasks s) name = Some a \<and> task (heap s ! a) \<notin> set (deleted s) \<and>
      (\<not> finished (heap s ! a) \<longrightarrow> WaitForTask_wake s name a = Blocked) \<and>
      (finished (heap s ! a) \<longrightarrow>
         (\<exists>s'. WaitForTask_wake s name a = Return s' \<and> map_of (tasks s') name = None \<and>
            deleted s' = deleted s @ [task (heap s ! a)] \<and> distinct (deleted s') \<and>
            (name, a) \<notin> set (waiting s') \<and> WaitForTask_wake s' name a = Blocked \<and>
            WaitForTask s' name = Throw (UnknownTaskName name) s'))" by blast
  qed
  have c12: "(\<forall>n s0 as a s1 as' s2. ThreadPool_ctor n = Inr s0 \<and> run s0 as = Return s \<and>
        conforms s0 as \<and> obeys s (Wait name) \<and> map_of (tasks s) name = Some a \<and>
        WaitForTask s name = Suspend s1 \<and> run s1 as' = Return s2 \<and> conforms s1 as' \<and>
        (name, a) \<in> set (waiting s2) \<longrightarrow>
      map_of (tasks s2) name = Some a \<and> task (heap s2 ! a) = task (heap s ! a) \<and>
      task (heap s ! a) \<notin> set (deleted s2) \<and>
      (\<not> finished (heap s2 ! a) \<longrightarrow> WaitForTask_wake s2 name a = Blocked) \<and>
      (finished (heap s2 ! a) \<longrightarrow>
         (\<exists>s3. WaitForTask_wake s2 name a = Return s3 \<and> map_of (tasks s3) name = None \<and>
            deleted s3 = deleted s2 @ [task (heap s ! a)] \<and> distinct (deleted s3) \<and>
            (name, a) \<notin> set (waiting s3) \<and> WaitForTask_wake s3 name a = Blocked \<and>
            WaitForTask s3 name = Throw (UnknownTaskName name) s3)))"
  proof (intro allI impI)
    fix n s0 as a s1 as' s2
    assume h: "ThreadPool_ctor n = Inr s0 \<and> run s0 as = Return s \<and>
        conforms s0 as \<and> obeys s (Wait name) \<and> map_of (tasks s) name = Some a \<and>
        WaitForTask s name = Suspend s1 \<and> run s1 as' = Return s2 \<and> conforms s1 as' \<and>
        (name, a) \<in> set (waiting s2)"
    then have "owner_inv s" by (auto intro: reachable_owner_inv)
    from wait_then_reclaim [OF this, of name a s1 as' s2] h show
      "map_of (tasks s2) name = Some a \<and> task (heap s2 ! a) = task (heap s ! a) \<and>
      task (heap s ! a) \<notin> set (deleted s2) \<and>
      (\<not> finished (heap s2 ! a) \<longrightarrow> WaitForTask_wake s2 name a = Blocked) \<and>
      (finished (heap s2 ! a) \<longrightarrow>
         (\<exists>s3. WaitForTask_wake s2 name a = Return s3 \<and> map_of (tasks s3) name = None \<and>
            deleted s3 = deleted s2 @ [task (heap s ! a)] \<and> distinct (deleted s3) \<and>
            (name, a) \<notin> set (waiting s3) \<and> WaitForTask_wake s3 name a = Blocked \<and>
            WaitForTask s3 name = Throw (UnknownTaskName name) s3))" by blast
  qed
  show ?thesis
    by (intro conjI) (fact c1, fact c2, fact c3, fact c4, fact c5, fact c6, fact c7,
      fact c8, fact c9, fact c10, fact c11, fact c12)
qed

theorem wait_for_task_reclaims_once_witness:
  "ThreadPool_ctor 1 = Inr \<lparr> stopping = False, queue = [], tasks = [],
      threads = [Idle], heap = [], waiting = [], joining = None,
      executed = [], deleted = [] \<rparr> \<and>
   run \<lparr> stopping = False, queue = [], tasks = [],
      threads = [Idle], heap = [], waiting = [], joining = None,
      executed = [], deleted = [] \<rparr> [Submit ''a'' (Some 5)] =
   Return \<lparr> stopping = False, queue = [''a''], tasks = [(''a'', 0)],
      threads = [Idle],
      heap = [\<lparr>task = 5, started = False, finished = False, waited = False\<rparr>],
      waiting = [], joining = None, executed = [], deleted = [] \<rparr> \<and>
   conforms \<lparr> stopping = False, queue = [], tasks = [],
      threads = [Idle], heap = [], waiting = [], joining = None,
      executed = [], deleted = [] \<rparr> [Submit ''a'' (Some 5)] \<and>
   WaitForTask \<lparr> stopping = False, queue = [''a''], tasks = [(''a'', 0)],
      threads = [Idle],
      heap = [\<lparr>task = 5, started = False, finished = False, waited = False\<rparr>],
      waiting = [], joining = None, executed = [], deleted = [] \<rparr> ''a'' =
   Suspend \<lparr> stopping = False, queue = [''a''], tasks = [(''a'', 0)],
      threads = [Idle],
      heap = [\<lparr>task = 5, started = False, finished = False, waited = True\<rparr>],
      waiting = [(''a'', 0)], joining = None, executed = [], deleted = [] \<rparr> \<and>
   WaitForTask_wake \<lparr> stopping = False, queue = [''a''], tasks = [(''a'', 0)],
      threads = [Idle],
      heap = [\<lparr>task = 5, started = False, finished = False, waited = True\<rparr>],
      waiting = [(''a'', 0)], joining = None, executed = [], deleted = [] \<rparr> ''a'' 0 = Blocked \<and>
   run \<lparr> stopping = False, queue = [''a''], tasks = [(''a'', 0)],
      threads = [Idle],
      heap = [\<lparr>task = 5, started = False, finished = False, waited = True\<rparr>],
      waiting = [(''a'', 0)], joining = None, executed = [], deleted = [] \<rparr>
     [Take 0, Run 0 Completes, Mark 0] =
   Return \<lparr> stopping = False, queue = [], tasks = [(''a'', 0)],
      threads = [Idle],
      heap = [\<lparr>task = 5, started = True, finished = True, waited = True\<rparr>],
      waiting = [(''a'', 0)], joining = None, executed = [5], deleted = [] \<rparr> \<and>
   WaitForTask_wake \<lparr> stopping = False, queue = [], tasks = [(''a'', 0)],
      threads = [Idle],
      heap = [\<lparr>task = 5, started = True, finished = True, waited = True\<rparr>],
      waiting = [(''a'', 0)], joining = None, executed = [5], deleted = [] \<rparr> ''a'' 0 =
   Return \<lparr> stopping = False, queue = [], tasks = [],
      threads = [Idle],
      heap = [\<lparr>task = 5, started = True, finished = True, waited = True\<rparr>],
      waiting = [], joining = None, executed = [5], deleted = [5] \<rparr> \<and>
   WaitForTask \<lparr> stopping = False, queue = [], tasks = [],
      threads = [Idle],
      heap = [\<lparr>task = 5, started = True, finished = True, waited = True\<rparr>],
      waiting = [], joining = None, executed = [5], deleted = [5] \<rparr> ''a'' =
   Throw (UnknownTaskName ''a'') \<lparr> stopping = False, queue = [], tasks = [],
      threads = [Idle],
      heap = [\<lparr>task = 5, started = True, finished = True, waited = True\<rparr>],
      waiting = [], joining = None, executed = [5], deleted = [5] \<rparr> \<and>
   WaitForTask_wake \<lparr> stopping = False, queue = [], tasks = [],
      threads = [Idle],
      heap = [\<lparr>task = 5, started = True, finished = True, waited = True\<rparr>],
      waiting = [], joining = None, executed = [5], deleted = [5] \<rparr> ''a'' 0 = Blocked \<and>
   WaitForTask \<lparr> stopping = False, queue = [], tasks = [(''a'', 0)],
      threads = [Idle],
      heap = [\<lparr>task = 5, started = True, finished = True, waited = False\<rparr>],
      waiting = [], joining = None, executed = [5], deleted = [] \<rparr> ''a'' =
   Return \<lparr> stopping = False, queue = [], tasks = [],
      threads = [Idle],
      heap = [\<lparr>task = 5, started = True, finished = True, waited = True\<rparr>],
      waiting = [], joining = None, executed = [5], deleted = [5] \<rparr>"
proof -
  let ?init = "\<lparr> stopping = False, queue = [], tasks = [],
      threads = [Idle], heap = [], waiting = [], joining = None,
      executed = [], deleted = [] \<rparr>"
  let ?st = "\<lparr> stopping = False, queue = [''a''], tasks = [(''a'', 0)],
      threads = [Idle],
      heap = [\<lparr>task = 5, started = False, finished = False, waited = False\<rparr>],
      waiting = [], joining = None, executed = [], deleted = [] \<rparr>"
  let ?susp = "\<lparr> stopping = False, queue = [''a''], tasks = [(''a'', 0)],
      threads = [Idle],
      heap = [\<lparr>task = 5, started = False, finished = False, waited = True\<rparr>],
      waiting = [(''a'', 0)], joining = None, executed = [], deleted = [] \<rparr>"
  let ?done = "\<lparr> stopping = False, queue = [], tasks = [(''a'', 0)],
      threads = [Idle],
      heap = [\<lparr>task = 5, started = True, finished = True, waited = True\<rparr>],
      waiting = [(''a'', 0)], joining = None, executed = [5], deleted = [] \<rparr>"
  let ?late = "\<lparr> stopping = False, queue = [], tasks = [(''a'', 0)],
      threads = [Idle],
      heap = [\<lparr>task = 5, started = True, finished = True, waited = False\<rparr>],
      waiting = [], joining = None, executed = [5], deleted = [] \<rparr>"
  have c: "ThreadPool_ctor 1 = Inr ?init" by (simp add: eval_defs)
  have r: "run ?init [Submit ''a'' (Some 5)] = Return ?st" by (simp add: eval_defs)
  have o: "conforms ?init [Submit ''a'' (Some 5)]" by (simp add: eval_defs)
  have ob: "obeys ?st (Wait ''a'')" by simp
  have m: "map_of (tasks ?st) ''a'' = Some 0" "\<not> finished (heap ?st ! 0)" by simp_all
  from wait_for_task_reclaims_once [of ?st "''a''"]
  have "\<forall>a. map_of (tasks ?st) ''a'' = Some a \<and> \<not> finished (heap ?st ! a) \<longrightarrow>
      WaitForTask ?st ''a'' =
        Suspend (?st\<lparr>heap := (heap ?st)[a := (heap ?st ! a)\<lparr>waited := True\<rparr>],
                     waiting := waiting ?st @ [(''a'', a)]\<rparr>)"
    by (elim conjE)
  with m have w: "WaitForTask ?st ''a'' = Suspend ?susp" by simp
  have r2: "run ?susp [Take 0, Run 0 Completes, Mark 0] = Return ?done"
    by (simp add: eval_defs)
  have o2: "conforms ?susp [Take 0, Run 0 Completes, Mark 0]" by (simp add: eval_defs)
  have mem: "(''a'', 0) \<in> set (waiting ?done)" "finished (heap ?done ! 0)" by simp_all
  have pre: "ThreadPool_ctor 1 = Inr ?init \<and> run ?init [Submit ''a'' (Some 5)] = Return ?st \<and>
      conforms ?init [Submit ''a'' (Some 5)] \<and> obeys ?st (Wait ''a'') \<and>
      map_of (tasks ?st) ''a'' = Some 0 \<and> WaitForTask ?st ''a'' = Suspend ?susp \<and>
      run ?susp [Take 0, Run 0 Completes, Mark 0] = Return ?done \<and>
      conforms ?susp [Take 0, Run 0 Completes, Mark 0] \<and> (''a'', 0) \<in> set (waiting ?done)"
    by (intro conjI) (fact c, fact r, fact o, fact ob, fact m(1), fact w, fact r2, fact o2,
      fact mem(1))
  from wait_for_task_reclaims_once [of ?st "''a''"]
  have "\<forall>n s0 as a s1 as' s2. ThreadPool_ctor n = Inr s0 \<and> run s0 as = Return ?st \<and>
        conforms s0 as \<and> obeys ?st (Wait ''a'') \<and> map_of (tasks ?st) ''a'' = Some a \<and>
        WaitForTask ?st ''a'' = Suspend s1 \<and> run s1 as' = Return s2 \<and> conforms s1 as' \<and>
        (''a'', a) \<in> set (waiting s2) \<longrightarrow>
      map_of (tasks s2) ''a'' = Some a \<and> task (heap s2 ! a) = task (heap ?st ! a) \<and>
      task (heap ?st ! a) \<notin> set (deleted s2) \<and>
      (\<not> finished (heap s2 ! a) \<longrightarrow> WaitForTask_wake s2 ''a'' a = Blocked) \<and>
      (finished (heap s2 ! a) \<longrightarrow>
         (\<exists>s3. WaitForTask_wake s2 ''a'' a = Return s3 \<and> map_of (tasks s3) ''a'' = None \<and>
            deleted s3 = deleted s2 @ [task (heap ?st ! a)] \<and> distinct (deleted s3) \<and>
            (''a'', a) \<notin> set (waiting s3) \<and> WaitForTask_wake s3 ''a'' a = Blocked \<and>
            WaitForTask s3 ''a'' = Throw (UnknownTaskName ''a'') s3))"
    by (elim conjE)
  from this [rule_format, OF pre] mem(2)
  have "\<exists>s3. WaitForTask_wake ?done ''a'' 0 = Return s3" by blast
  moreover have ml: "map_of (tasks ?late) ''a'' = Some 0" "finished (heap ?late ! 0)"
    by simp_all
  from wait_for_task_reclaims_once [of ?late "''a''"]
  have "\<forall>a. map_of (tasks ?late) ''a'' = Some a \<and> finished (heap ?late ! a) \<longrightarrow>
      WaitForTask ?late ''a'' =
        Return (?late\<lparr>heap := (heap ?late)[a := (heap ?late ! a)\<lparr>waited := True\<rparr>],
                  tasks := AList.delete ''a'' (tasks ?late),
                  deleted := deleted ?late @ [task (heap ?late ! a)]\<rparr>)"
    by (elim conjE)
  with ml have "\<exists>s'. WaitForTask ?late ''a'' = Return s'" by blast
  ultimately show ?thesis using c r o w r2 by (simp add: eval_defs)
qed

section \<open>The worker loop and Stop\<close>

lemma take_exit_iff:
  assumes "WorkerLoop_take s i = Return s'"
  shows "threads s' ! i = Exited \<longleftrightarrow> stopping s \<and> queue s = []"
proof -
  from assms have "next_state (WorkerLoop_take s i) = Some s'" by simp
  from WorkerLoop_take_next [OF this] show ?thesis by auto
qed

lemma take_run_mark:
  assumes "i < length (threads s)" and "threads s ! i = Idle"
    and "queue s = name # rest" and "map_of (tasks s) name = Some a"
  shows "\<exists>s1 s2 s3. WorkerLoop_take s i = Return s1 \<and> threads s1 ! i = Running a \<and>
      queue s1 = rest \<and> WorkerLoop_run s1 i r = Return s2 \<and>
      executed s2 = executed s @ [task (heap s ! a)] \<and>
      WorkerLoop_mark s2 i = Return s3 \<and> threads s3 ! i = Idle \<and> queue s3 = rest"
  using assms by (cases r) (simp_all add: WorkerLoop_take_def WorkerLoop_run_def WorkerLoop_mark_def)

lemma join_return_all_joined:
  assumes "Stop_join s = Return s'" and "joining_inv s"
  shows "\<forall>w \<in> set (threads s). w = Joined"
proof -
  from assms(1) have "next_state (Stop_join s) = Some s'" by simp
  from Stop_join_next [OF this] assms(1)
  obtain k where k: "joining s = Some k" "\<not> k < length (threads s)"
    by (cases "joining s"; cases "threads s ! the (joining s)")
       (auto simp: Stop_join_def split: if_splits)
  with assms(2) have "threads s ! j = Joined" if "j < length (threads s)" for j
    using that by (auto simp: joining_inv_def)
  then show ?thesis by (auto simp: in_set_conv_nth)
qed

lemma join_blocked:
  assumes "joining s = Some k" and "k < length (threads s)"
    and "threads s ! k \<noteq> Exited" and "threads s ! k \<noteq> Joined"
  shows "Stop_join s = Blocked"
  using assms by (cases "threads s ! k") (simp_all add: Stop_join_def)

text \<open>
  C3.  A worker leaves its loop exactly when, at the moment it wakes, the pool is stopping
  and the queue is empty; with an item pending on a stopping pool it takes the item, runs
  it and marks it finished before it tests again.  So once any worker has left, the queue
  is empty.  The call of Stop that sets the flag goes into the join loop, which waits
  while the thread it joins is still in its loop and returns only when every worker has
  left and is joined; and the workers can always get there: from every reachable state
  that is not stopping there is an interleaving after which Stop has returned, with the
  queue empty and every worker joined.
\<close>

theorem workers_drain_before_exit:
  assumes "ThreadPool_ctor n = Inr s0" and "run s0 as = Return s"
  shows "(\<forall>i s'. WorkerLoop_take s i = Return s' \<longrightarrow>
            (threads s' ! i = Exited \<longleftrightarrow> stopping s \<and> queue s = [])) \<and>
         (\<forall>i name rest r. i < length (threads s) \<and> threads s ! i = Idle \<and> stopping s \<and>
            queue s = name # rest \<longrightarrow>
            (\<exists>a s1 s2 s3. map_of (tasks s) name = Some a \<and>
               WorkerLoop_take s i = Return s1 \<and> threads s1 ! i = Running a \<and>
               queue s1 = rest \<and> WorkerLoop_run s1 i r = Return s2 \<and>
               executed s2 = executed s @ [task (heap s ! a)] \<and>
               WorkerLoop_mark s2 i = Return s3 \<and> threads s3 ! i = Idle \<and>
               queue s3 = rest)) \<and>
         ((\<exists>w \<in> set (threads s). w = Exited \<or> w = Joined) \<longrightarrow> stopping s \<and> queue s = []) \<and>
         (\<not> stopping s \<longrightarrow> Stop s = Suspend (s\<lparr>stopping := True, joining := Some 0\<rparr>)) \<and>
         (\<forall>k. joining s = Some k \<and> k < length (threads s) \<and>
            threads s ! k \<noteq> Exited \<and> threads s ! k \<noteq> Joined \<longrightarrow> Stop_join s = Blocked) \<and>
         (\<forall>s'. Stop_join s = Return s' \<longrightarrow>
            (\<forall>w \<in> set (threads s). w = Joined) \<and> queue s = []) \<and>
         (\<not> stopping s \<longrightarrow>
            (\<exists>as' s'. run s (CallStop # as') = Return s' \<and> joining s' = None \<and>
               (\<forall>w \<in> set (threads s'). w = Joined) \<and> queue s' = []))"
proof -
  from assms have inv: "pool_inv s" by (rule reachable_inv)
  have 7: "\<exists>as' s'. run s (CallStop # as') = Return s' \<and> joining s' = None \<and>
      (\<forall>w \<in> set (threads s'). w = Joined) \<and> queue s' = []" if "\<not> stopping s"
    using stop_completes [OF inv that] by blast
  from inv have q: "queue_inv s" and e: "exited_inv s" and j: "joining_inv s"
    and ne: "threads s \<noteq> []"
    by (simp_all add: pool_inv_def)
  have 1: "threads s' ! i = Exited \<longleftrightarrow> stopping s \<and> queue s = []"
    if "WorkerLoop_take s i = Return s'" for i s'
    using that by (rule take_exit_iff)
  have 2: "\<exists>a s1 s2 s3. map_of (tasks s) name = Some a \<and>
      WorkerLoop_take s i = Return s1 \<and> threads s1 ! i = Running a \<and>
      queue s1 = rest \<and> WorkerLoop_run s1 i r = Return s2 \<and>
      executed s2 = executed s @ [task (heap s ! a)] \<and>
      WorkerLoop_mark s2 i = Return s3 \<and> threads s3 ! i = Idle \<and> queue s3 = rest"
    if "i < length (threads s)" "threads s ! i = Idle" "queue s = name # rest"
    for i name rest r
  proof -
    from q that(3) obtain a where a: "map_of (tasks s) name = Some a"
      by (auto simp: queue_inv_def)
    from take_run_mark [OF that a, of r] a show ?thesis by blast
  qed
  have 3: "stopping s \<and> queue s = []" if "\<exists>w \<in> set (threads s). w = Exited \<or> w = Joined"
    using that e by (auto simp: exited_inv_def in_set_conv_nth)
  have 4: "Stop s = Suspend (s\<lparr>stopping := True, joining := Some 0\<rparr>)" if "\<not> stopping s"
    using that by (simp add: Stop_def)
  have 5: "Stop_join s = Blocked"
    if "joining s = Some k" "k < length (threads s)"
      "threads s ! k \<noteq> Exited" "threads s ! k \<noteq> Joined" for k
    using that by (rule join_blocked)
  have 6: "(\<forall>w \<in> set (threads s). w = Joined) \<and> queue s = []"
    if "Stop_join s = Return s'" for s'
  proof -
    from that j have all: "\<forall>w \<in> set (threads s). w = Joined"
      by (rule join_return_all_joined)
    moreover from ne obtain w where "w \<in> set (threads s)" by (cases "threads s") auto
    ultimately have "\<exists>w \<in> set (threads s). w = Exited \<or> w = Joined" by blast
    with 3 all show ?thesis by blast
  qed
  show ?thesis
    apply (intro conjI allI impI)
    subgoal for i s' using 1 by blast
    subgoal for i name rest r using 2 [of i name rest r] by blast
    subgoal using 3 by blast
    subgoal using 3 by blast
    subgoal using 4 by blast
    subgoal for k using 5 by blast
    subgoal for s' using 6 by blast
    subgoal for s' using 6 by blast
    subgoal using 7 by blast
    done
qed

theorem workers_drain_before_exit_witness:
  "ThreadPool_ctor 1 = Inr \<lparr> stopping = False, queue = [], tasks = [],
      threads = [Idle], heap = [], waiting = [], joining = None,
      executed = [], deleted = [] \<rparr> \<and>
   run \<lparr> stopping = False, queue = [], tasks = [],
      threads = [Idle], heap = [], waiting = [], joining = None,
      executed = [], deleted = [] \<rparr> [Submit ''a'' (Some 5), CallStop] =
   Return \<lparr> stopping = True, queue = [''a''], tasks = [(''a'', 0)],
      threads = [Idle],
      heap = [\<lparr>task = 5, started = False, finished = False, waited = False\<rparr>],
      waiting = [], joining = Some 0, executed = [], deleted = [] \<rparr> \<and>
   Stop_join \<lparr> stopping = True, queue = [''a''], tasks = [(''a'', 0)],
      threads = [Idle],
      heap = [\<lparr>task = 5, started = False, finished = False, waited = False\<rparr>],
      waiting = [], joining = Some 0, executed = [], deleted = [] \<rparr> = Blocked \<and>
   WorkerLoop_take \<lparr> stopping = True, queue = [''a''], tasks = [(''a'', 0)],
      threads = [Idle],
      heap = [\<lparr>task = 5, started = False, finished = False, waited = False\<rparr>],
      waiting = [], joining = Some 0, executed = [], deleted = [] \<rparr> 0 =
   Return \<lparr> stopping = True, queue = [], tasks = [(''a'', 0)],
      threads = [Running 0],
      heap = [\<lparr>task = 5, started = True, finished = False, waited = False\<rparr>],
      waiting = [], joining = Some 0, executed = [], deleted = [] \<rparr>"
proof -
  let ?init = "\<lparr> stopping = False, queue = [], tasks = [],
      threads = [Idle], heap = [], waiting = [], joining = None,
      executed = [], deleted = [] \<rparr>"
  let ?st = "\<lparr> stopping = True, queue = [''a''], tasks = [(''a'', 0)],
      threads = [Idle],
      heap = [\<lparr>task = 5, started = False, finished = False, waited = False\<rparr>],
      waiting = [], joining = Some 0, executed = [], deleted = [] \<rparr>"
  have c: "ThreadPool_ctor 1 = Inr ?init"
    by (simp add: eval_defs)
  have r: "run ?init [Submit ''a'' (Some 5), CallStop] = Return ?st"
    by (simp add: eval_defs)
  from workers_drain_before_exit [OF c r] have "Stop_join ?st = Blocked" by simp
  with c r show ?thesis by (simp add: eval_defs)
qed

lemma step_throws:
  assumes "step s x = Throw e s'"
  shows "(\<exists>name. x = Submit name None \<and> e = NullTask) \<or>
     (\<exists>name t. x = Submit name (Some t) \<and> e = DuplicateTaskName name) \<or>
     (\<exists>name. x = Wait name \<and> e = UnknownTaskName name)"
proof (cases x)
  case (Submit name tp)
  with assms show ?thesis
    by (cases tp) (auto simp: SubmitTask_def split: if_splits)
next
  case (Wait name)
  with assms show ?thesis
    by (cases "map_of (tasks s) name") (auto simp: WaitForTask_def Let_def split: if_splits)
next
  case (Wake name p)
  with assms show ?thesis by (auto simp: WaitForTask_wake_def split: if_splits)
next
  case CallStop
  with assms show ?thesis by (auto simp: Stop_def split: if_splits)
next
  case Join
  with assms show ?thesis
    by (cases "joining s"; cases "threads s ! the (joining s)")
       (auto simp: Stop_join_def split: if_splits)
next
  case (Take i)
  from assms have "next_state (step s x) = Some s'" by simp
  then have "next_state (WorkerLoop_take s i) = Some s'" using Take by simp
  from WorkerLoop_take_next [OF this] assms Take show ?thesis
    by (auto simp: WorkerLoop_take_def)
next
  case (Run i r)
  with assms show ?thesis
    by (cases "threads s ! i"; cases r) (auto simp: WorkerLoop_run_def Let_def split: if_splits)
next
  case (Mark i)
  with assms show ?thesis
    by (cases "threads s ! i") (auto simp: WorkerLoop_mark_def split: if_splits)
qed

lemma run_mark:
  assumes "i < length (threads s)" and "threads s ! i = Running a" and "a < length (heap s)"
  shows "\<exists>s1 s2. WorkerLoop_run s i r = Return s1 \<and> threads s1 ! i = Finishing a \<and>
     executed s1 = executed s @ [task (heap s ! a)] \<and>
     WorkerLoop_mark s1 i = Return s2 \<and> finished (heap s2 ! a) \<and> threads s2 ! i = Idle \<and>
     s2 = s\<lparr>executed := executed s @ [task (heap s ! a)],
            heap := (heap s)[a := (heap s ! a)\<lparr>finished := True\<rparr>],
            threads := (threads s)[i := Idle]\<rparr>"
  using assms by (cases r) (simp_all add: WorkerLoop_run_def WorkerLoop_mark_def)

text \<open>
  C4.  When the run of a task raises, the worker goes on exactly as when it returns: it
  marks the record finished and is back at the top of its loop, not out of it.  A caller
  suspended on that record can then wake and reclaim it, and the worker takes the next
  queued item if there is one.  No step of a worker throws: the only exceptions are
  NullTask and DuplicateTaskName from SubmitTask and UnknownTaskName from WaitForTask,
  raised by those calls themselves.
\<close>

theorem task_fault_contained:
  assumes "ThreadPool_ctor n = Inr s0" and "run s0 as = Return s" and "conforms s0 as"
    and "i < length (threads s)" and "threads s ! i = Running a"
  shows "\<exists>s1 s2. WorkerLoop_run s i Raises = Return s1 \<and>
      WorkerLoop_run s i Raises = WorkerLoop_run s i Completes \<and>
      threads s1 ! i = Finishing a \<and>
      WorkerLoop_mark s1 i = Return s2 \<and> finished (heap s2 ! a) \<and> threads s2 ! i = Idle \<and>
      (\<forall>name. (name, a) \<in> set (waiting s2) \<longrightarrow>
         (\<exists>s3. WaitForTask_wake s2 name a = Return s3)) \<and>
      (\<forall>name rest. queue s2 = name # rest \<longrightarrow>
         (\<exists>b s3. WorkerLoop_take s2 i = Return s3 \<and> threads s3 ! i = Running b \<and>
            queue s3 = rest)) \<and>
      (\<forall>x e s'. step s x = Throw e s' \<or> step s1 x = Throw e s' \<or> step s2 x = Throw e s' \<longrightarrow>
         (\<exists>name. x = Submit name None \<and> e = NullTask) \<or>
         (\<exists>name t. x = Submit name (Some t) \<and> e = DuplicateTaskName name) \<or>
         (\<exists>name. x = Wait name \<and> e = UnknownTaskName name))"
proof -
  from assms(1-3) have o: "owner_inv s" by (rule reachable_owner_inv)
  then have w: "wait_inv s" and q: "queue_inv s" and wk: "worker_inv s"
    by (simp_all add: owner_inv_def pool_inv_def)
  from wk assms(4,5) have a: "a < length (heap s)" by (auto simp: worker_inv_def)
  let ?s2 = "s\<lparr>executed := executed s @ [task (heap s ! a)],
            heap := (heap s)[a := (heap s ! a)\<lparr>finished := True\<rparr>],
            threads := (threads s)[i := Idle]\<rparr>"
  from run_mark [OF assms(4,5) a, of Raises] obtain s1 where
    s1: "WorkerLoop_run s i Raises = Return s1" "threads s1 ! i = Finishing a"
      "WorkerLoop_mark s1 i = Return ?s2" "finished (heap ?s2 ! a)" "threads ?s2 ! i = Idle"
    by auto
  from assms(4,5) have same: "WorkerLoop_run s i Raises = WorkerLoop_run s i Completes"
    by (simp add: WorkerLoop_run_def)
  have wake: "\<exists>s3. WaitForTask_wake ?s2 name a = Return s3"
    if "(name, a) \<in> set (waiting ?s2)" for name
  proof -
    from that w have "map_of (tasks s) name = Some a" by (simp add: wait_inv_def)
    with that a show ?thesis by (simp add: WaitForTask_wake_def)
  qed
  have take: "\<exists>b s3. WorkerLoop_take ?s2 i = Return s3 \<and> threads s3 ! i = Running b \<and>
      queue s3 = rest" if "queue ?s2 = name # rest" for name rest
  proof -
    from that q obtain b where "map_of (tasks s) name = Some b"
      by (auto simp: queue_inv_def)
    with that assms(4) show ?thesis by (simp add: WorkerLoop_take_def)
  qed
  have throws: "(\<exists>name. x = Submit name None \<and> e = NullTask) \<or>
      (\<exists>name t. x = Submit name (Some t) \<and> e = DuplicateTaskName name) \<or>
      (\<exists>name. x = Wait name \<and> e = UnknownTaskName name)"
    if "step s x = Throw e s' \<or> step s1 x = Throw e s' \<or> step ?s2 x = Throw e s'"
    for x e s'
    using that step_throws by blast
  from s1 same wake take throws show ?thesis by blast
qed

theorem task_fault_contained_witness:
  "ThreadPool_ctor 1 = Inr \<lparr> stopping = False, queue = [], tasks = [],
      threads = [Idle], heap = [], waiting = [], joining = None,
      executed = [], deleted = [] \<rparr> \<and>
   run \<lparr> stopping = False, queue = [], tasks = [],
      threads = [Idle], heap = [], waiting = [], joining = None,
      executed = [], deleted = [] \<rparr> [Submit ''a'' (Some 5), Wait ''a'', Take 0] =
   Return \<lparr> stopping = False, queue = [], tasks = [(''a'', 0)],
      threads = [Running 0],
      heap = [\<lparr>task = 5, started = True, finished = False, waited = True\<rparr>],
      waiting = [(''a'', 0)], joining = None, executed = [], deleted = [] \<rparr> \<and>
   conforms \<lparr> stopping = False, queue = [], tasks = [],
      threads = [Idle], heap = [], waiting = [], joining = None,
      executed = [], deleted = [] \<rparr> [Submit ''a'' (Some 5), Wait ''a'', Take 0] \<and>
   run \<lparr> stopping = False, queue = [], tasks = [(''a'', 0)],
      threads = [Running 0],
      heap = [\<lparr>task = 5, started = True, finished = False, waited = True\<rparr>],
      waiting = [(''a'', 0)], joining = None, executed = [], deleted = [] \<rparr>
     [Run 0 Raises, Mark 0, Wake ''a'' 0] =
   Return \<lparr> stopping = False, queue = [], tasks = [],
      threads = [Idle],
      heap = [\<lparr>task = 5, started = True, finished = True, waited = True\<rparr>],
      waiting = [], joining = None, executed = [5], deleted = [5] \<rparr>"
proof -
  let ?init = "\<lparr> stopping = False, queue = [], tasks = [],
      threads = [Idle], heap = [], waiting = [], joining = None,
      executed = [], deleted = [] \<rparr>"
  let ?st = "\<lparr> stopping = False, queue = [], tasks = [(''a'', 0)],
      threads = [Running 0],
      heap = [\<lparr>task = 5, started = True, finished = False, waited = True\<rparr>],
      waiting = [(''a'', 0)], joining = None, executed = [], deleted = [] \<rparr>"
  have c: "ThreadPool_ctor 1 = Inr ?init"
    by (simp add: eval_defs)
  have r: "run ?init [Submit ''a'' (Some 5), Wait ''a'', Take 0] = Return ?st"
    by (simp add: eval_defs)
  have o: "conforms ?init [Submit ''a'' (Some 5), Wait ''a'', Take 0]"
    by (simp add: eval_defs)
  have i: "0 < length (threads ?st)" "threads ?st ! 0 = Running 0" by simp_all
  from task_fault_contained [OF c r o i]
  have "\<exists>s1. WorkerLoop_run ?st 0 Raises = Return s1" by blast
  with c r o show ?thesis by (simp add: eval_defs)
qed

section \<open>The destructor\<close>

lemma held_task_live:
  assumes "owner_inv s" and "i < length (threads s)" and "holds (threads s ! i) a"
  shows "task (heap s ! a) \<notin> set (deleted s)"
proof -
  from assms(1) have "held_inv s" and o: "own_inv s"
    by (simp_all add: owner_inv_def pool_inv_def)
  from held_invD(2) [OF this(1) assms(2,3)] obtain n where "map_of (tasks s) n = Some a" ..
  with o show ?thesis by (simp add: own_inv_def)
qed

lemma run_task_live:
  assumes "owner_inv s" and "WorkerLoop_run s i r = Return s'"
  shows "\<exists>t. executed s' = executed s @ [t] \<and> t \<notin> set (deleted s)"
proof -
  from assms(2) have "next_state (WorkerLoop_run s i r) = Some s'" by simp
  from WorkerLoop_run_next [OF this] obtain p where
    p: "i < length (threads s)" "threads s ! i = Running p"
      "executed s' = executed s @ [task (heap s ! p)]"
    by auto
  from p(2) have "holds (threads s ! i) p" by simp
  from held_task_live [OF assms(1) p(1) this] p(3) show ?thesis by simp
qed

lemma dtor_Return_cases:
  assumes "ThreadPool_dtor s sched = Return s'"
  obtains (stopped) "stopping s" "release_all s = Return s'"
  | (stops) s2 where "\<not> stopping s" "run s (CallStop # sched) = Return s2"
      "joining s2 = None" "release_all s2 = Return s'"
proof (cases "stopping s")
  case True
  with assms have "release_all s = Return s'" by (simp add: ThreadPool_dtor_def)
  with True show ?thesis by (rule stopped)
next
  case False
  show ?thesis
  proof (cases "run s (CallStop # sched)")
    case (Return s2)
    with assms False have "joining s2 = None" "release_all s2 = Return s'"
      by (auto simp: ThreadPool_dtor_def split: if_splits)
    with False Return show ?thesis by (rule stops)
  qed (use assms False in \<open>simp_all add: ThreadPool_dtor_def\<close>)
qed

lemma dtor_no_crash:
  assumes "owner_inv s" and "conforms s (CallStop # sched)" and "joining s = None"
  shows "ThreadPool_dtor s sched \<noteq> Crash"
proof (cases "stopping s")
  case True
  from assms(1) have "pool_inv s" by (simp add: owner_inv_def)
  from this True assms(3) have "\<forall>w \<in> set (threads s). w = Joined"
    by (rule returned_all_joined)
  from release_all_joined [OF this] True show ?thesis by (simp add: ThreadPool_dtor_def)
next
  case False
  from assms(2,1) have nc: "run s (CallStop # sched) \<noteq> Crash" by (rule run_no_crash)
  show ?thesis
  proof (cases "run s (CallStop # sched)")
    case (Return s2)
    show ?thesis
    proof (cases "joining s2")
      case None
      from assms(1) have "pool_inv s" by (simp add: owner_inv_def)
      with Return have p: "pool_inv s2" by (rule pool_inv_run)
      from False have "next_state (step s CallStop) = Some (s\<lparr>stopping := True, joining := Some 0\<rparr>)"
        by (simp add: Stop_def)
      from Return [unfolded run_Cons_moves [OF this]] have "stopping s2"
        by (rule stopping_run) simp
      with p have "\<forall>w \<in> set (threads s2). w = Joined" using None
        by (rule returned_all_joined)
      from release_all_joined [OF this] Return None False show ?thesis
        by (simp add: ThreadPool_dtor_def del: run.simps)
    next
      case (Some k)
      with Return False show ?thesis by (simp add: ThreadPool_dtor_def del: run.simps)
    qed
  qed (use nc False in \<open>simp_all add: ThreadPool_dtor_def del: run.simps\<close>)
qed

lemma dtor_Return_props:
  assumes "owner_inv s" and "conforms s (CallStop # sched)"
    and "ThreadPool_dtor s sched = Return s'"
  shows "queue s' = [] \<and> tasks s' = [] \<and> (\<forall>w \<in> set (threads s'). w = Joined) \<and>
    (\<forall>name \<in> set (queue s). \<exists>a. map_of (tasks s) name = Some a \<and>
        task (heap s ! a) \<in> set (executed s') \<and> task (heap s ! a) \<in> set (deleted s')) \<and>
    set (map task (heap s')) \<subseteq> set (deleted s') \<and> distinct (deleted s')"
  using assms(3)
proof (cases rule: dtor_Return_cases)
  case stopped
  from release_all_Return [OF stopped(2)] have j: "\<forall>w \<in> set (threads s). w = Joined" by simp
  with assms(1) have "queue s = []"
    by (auto dest: all_joined_queue_empty simp: owner_inv_def)
  with release_all_props [OF assms(1) stopped(2)] j show ?thesis by simp
next
  case (stops s2)
  from stops(2) assms(2,1) have o2: "owner_inv s2" by (rule owner_inv_run)
  then have p2: "pool_inv s2" by (simp add: owner_inv_def)
  from assms(1) have p: "pool_inv s" by (simp add: owner_inv_def)
  from release_all_Return [OF stops(4)] have j: "\<forall>w \<in> set (threads s2). w = Joined" by simp
  with p2 have q2: "queue s2 = []" by (auto dest: all_joined_queue_empty)
  note props = release_all_props [OF o2 stops(4)]
  have "\<exists>a. map_of (tasks s) name = Some a \<and>
      task (heap s ! a) \<in> set (executed s') \<and> task (heap s ! a) \<in> set (deleted s')"
    if "name \<in> set (queue s)" for name
  proof -
    from queued_accounted [OF p that] obtain a where
      a: "map_of (tasks s) name = Some a" "accounted s a (task (heap s ! a))" by blast
    from accounted_run [OF stops(2) p a(2)] have "accounted s2 a (task (heap s ! a))" .
    from accounted_done [OF this q2 j] props a(1) show ?thesis by auto
  qed
  with props q2 j show ?thesis by simp
qed

lemma dtor_completes:
  assumes "pool_inv s" and "joining s = None"
  shows "\<exists>sched s'. conforms s (CallStop # sched) \<and> ThreadPool_dtor s sched = Return s'"
proof (cases "stopping s")
  case True
  with assms have "\<forall>w \<in> set (threads s). w = Joined" by (intro returned_all_joined)
  from release_all_joined [OF this] True
  have "\<exists>s'. ThreadPool_dtor s [] = Return s'" by (simp add: ThreadPool_dtor_def)
  moreover from True have "conforms s [CallStop]" by (simp add: Stop_def)
  ultimately show ?thesis by blast
next
  case False
  from stop_completes [OF assms(1) False] obtain as s2 where
    as: "run s (CallStop # as) = Return s2" "conforms s (CallStop # as)"
      "joining s2 = None" "\<forall>w \<in> set (threads s2). w = Joined"
    by blast
  from release_all_joined [OF as(4)] as(1,3) False
  have "\<exists>s'. ThreadPool_dtor s as = Return s'"
    by (simp add: ThreadPool_dtor_def del: run.simps)
  with as(2) show ?thesis by blast
qed

lemma dtor_queue_empty:
  assumes "pool_inv s" and "ThreadPool_dtor s sched = Return s'"
  shows "queue s' = [] \<and> tasks s' = []"
  using assms(2)
proof (cases rule: dtor_Return_cases)
  case stopped
  from release_all_Return [OF stopped(2)] all_joined_queue_empty [OF assms(1)]
  show ?thesis by simp
next
  case (stops s2)
  from stops(2) assms(1) have "pool_inv s2" by (rule pool_inv_run)
  from release_all_Return [OF stops(4)] all_joined_queue_empty [OF this]
  show ?thesis by simp
qed

text \<open>
  C1, as the code has it.  The destructor of a pool that is not stopping calls Stop and
  goes on only when the join loop has returned; by then the workers have emptied the
  queue, so every task that was queued when the destructor began has been run.  The
  destructor then deletes the task of every record left in the registry and clears the
  registry, running nothing itself.  With callers that keep to the contract, every task
  the pool ever took over has been deleted exactly once when the destructor returns.
  Unless another thread is still inside Stop, the destructor does not crash, whatever
  the interleaving, and there is an interleaving under which it returns.  While the
  workers drain the queue, as at any other time, a task that is run has not been deleted.
\<close>

theorem destructor_drains_then_releases:
  assumes "ThreadPool_ctor n = Inr s0" and "run s0 as = Return s" and "conforms s0 as"
    and "conforms s (CallStop # sched)"
  shows "(joining s = None \<longrightarrow> ThreadPool_dtor s sched \<noteq> Crash) \<and>
    (\<forall>s'. ThreadPool_dtor s sched = Return s' \<longrightarrow>
       queue s' = [] \<and> tasks s' = [] \<and> (\<forall>w \<in> set (threads s'). w = Joined) \<and>
       (\<forall>name \<in> set (queue s). \<exists>a. map_of (tasks s) name = Some a \<and>
           task (heap s ! a) \<in> set (executed s') \<and> task (heap s ! a) \<in> set (deleted s')) \<and>
       set (map task (heap s')) \<subseteq> set (deleted s') \<and> distinct (deleted s')) \<and>
    (\<forall>u u'. release_all u = Return u' \<longrightarrow> executed u' = executed u) \<and>
    (joining s = None \<longrightarrow>
       (\<exists>sched' s'. conforms s (CallStop # sched') \<and> ThreadPool_dtor s sched' = Return s')) \<and>
    (\<forall>sched' u i r u'. conforms s sched' \<and> run s sched' = Return u \<and>
         WorkerLoop_run u i r = Return u' \<longrightarrow>
       (\<exists>t. executed u' = executed u @ [t] \<and> t \<notin> set (deleted u)))"
proof -
  from assms(1-3) have o: "owner_inv s" by (rule reachable_owner_inv)
  then have p: "pool_inv s" by (simp add: owner_inv_def)
  have 4: "\<exists>sched' s'. conforms s (CallStop # sched') \<and> ThreadPool_dtor s sched' = Return s'"
    if "joining s = None"
    using p that by (rule dtor_completes)
  have 1: "ThreadPool_dtor s sched \<noteq> Crash" if "joining s = None"
    using o assms(4) that by (rule dtor_no_crash)
  have 2: "queue s' = [] \<and> tasks s' = [] \<and> (\<forall>w \<in> set (threads s'). w = Joined) \<and>
       (\<forall>name \<in> set (queue s). \<exists>a. map_of (tasks s) name = Some a \<and>
           task (heap s ! a) \<in> set (executed s') \<and> task (heap s ! a) \<in> set (deleted s')) \<and>
       set (map task (heap s')) \<subseteq> set (deleted s') \<and> distinct (deleted s')"
    if "ThreadPool_dtor s sched = Return s'" for s'
    using o assms(4) that by (rule dtor_Return_props)
  have 3: "executed u' = executed u" if "release_all u = Return u'" for u u'
    using release_all_Return [OF that] by simp
  have 5: "\<exists>t. executed u' = executed u @ [t] \<and> t \<notin> set (deleted u)"
    if "conforms s sched'" "run s sched' = Return u" "WorkerLoop_run u i r = Return u'"
    for sched' u i r u'
  proof -
    from that(2,1) o have "owner_inv u" by (rule owner_inv_run)
    then show ?thesis using that(3) by (rule run_task_live)
  qed
  from 1 2 3 4 5 show ?thesis by blast
qed

theorem destructor_drains_then_releases_witness:
  "ThreadPool_ctor 2 = Inr \<lparr> stopping = False, queue = [], tasks = [],
      threads = [Idle, Idle], heap = [], waiting = [], joining = None,
      executed = [], deleted = [] \<rparr> \<and>
   run \<lparr> stopping = False, queue = [], tasks = [],
      threads = [Idle, Idle], heap = [], waiting = [], joining = None,
      executed = [], deleted = [] \<rparr>
     [Submit ''a'' (Some 10), Submit ''b'' (Some 11), Take 0] =
   Return \<lparr> stopping = False, queue = [''b''], tasks = [(''a'', 0), (''b'', 1)],
      threads = [Running 0, Idle],
      heap = [\<lparr>task = 10, started = True, finished = False, waited = False\<rparr>,
              \<lparr>task = 11, started = False, finished = False, waited = False\<rparr>],
      waiting = [], joining = None, executed = [], deleted = [] \<rparr> \<and>
   conforms \<lparr> stopping = False, queue = [], tasks = [],
      threads = [Idle, Idle], heap = [], waiting = [], joining = None,
      executed = [], deleted = [] \<rparr>
     [Submit ''a'' (Some 10), Submit ''b'' (Some 11), Take 0] \<and>
   conforms \<lparr> stopping = False, queue = [''b''], tasks = [(''a'', 0), (''b'', 1)],
      threads = [Running 0, Idle],
      heap = [\<lparr>task = 10, started = True, finished = False, waited = False\<rparr>,
              \<lparr>task = 11, started = False, finished = False, waited = False\<rparr>],
      waiting = [], joining = None, executed = [], deleted = [] \<rparr>
     [CallStop, Take 1, Run 0 Raises, Run 1 Completes, Mark 1, Mark 0, Take 0, Take 1,
      Join, Join, Join] \<and>
   ThreadPool_dtor \<lparr> stopping = False, queue = [''b''], tasks = [(''a'', 0), (''b'', 1)],
      threads = [Running 0, Idle],
      heap = [\<lparr>task = 10, started = True, finished = False, waited = False\<rparr>,
              \<lparr>task = 11, started = False, finished = False, waited = False\<rparr>],
      waiting = [], joining = None, executed = [], deleted = [] \<rparr>
     [Take 1, Run 0 Raises, Run 1 Completes, Mark 1, Mark 0, Take 0, Take 1,
      Join, Join, Join] =
   Return \<lparr> stopping = True, queue = [], tasks = [],
      threads = [Joined, Joined],
      heap = [\<lparr>task = 10, started = True, finished = True, waited = False\<rparr>,
              \<lparr>task = 11, started = True, finished = True, waited = False\<rparr>],
      waiting = [], joining = None, executed = [10, 11], deleted = [10, 11] \<rparr>"
proof -
  let ?init = "\<lparr> stopping = False, queue = [], tasks = [],
      threads = [Idle, Idle], heap = [], waiting = [], joining = None,
      executed = [], deleted = [] \<rparr>"
  let ?st = "\<lparr> stopping = False, queue = [''b''], tasks = [(''a'', 0), (''b'', 1)],
      threads = [Running 0, Idle],
      heap = [\<lparr>task = 10, started = True, finished = False, waited = False\<rparr>,
              \<lparr>task = 11, started = False, finished = False, waited = False\<rparr>],
      waiting = [], joining = None, executed = [], deleted = [] \<rparr>"
  let ?sched = "[Take 1, Run 0 Raises, Run 1 Completes, Mark 1, Mark 0, Take 0, Take 1,
      Join, Join, Join]"
  have c: "ThreadPool_ctor 2 = Inr ?init"
    by (simp add: eval_defs numeral_eq_Suc)
  have r: "run ?init [Submit ''a'' (Some 10), Submit ''b'' (Some 11), Take 0] = Return ?st"
    by (simp add: eval_defs)
  have o: "conforms ?init [Submit ''a'' (Some 10), Submit ''b'' (Some 11), Take 0]"
    by (simp add: eval_defs)
  have o2: "conforms ?st (CallStop # ?sched)"
    by (simp add: eval_defs)
  from destructor_drains_then_releases [OF c r o o2]
  have "ThreadPool_dtor ?st ?sched \<noteq> Crash" by simp
  with c r o o2 show ?thesis by (simp add: eval_defs)
qed

text \<open>
  C1 as the specification states it fails: a pool with one worker and one queued task
  that nobody waits for is destroyed, and the destructor's Stop makes the worker run the
  task before the destructor deletes it.
\<close>

theorem destructor_runs_queued_task:
  "ThreadPool_ctor 1 = Inr \<lparr> stopping = False, queue = [], tasks = [],
      threads = [Idle], heap = [], waiting = [], joining = None,
      executed = [], deleted = [] \<rparr> \<and>
   run \<lparr> stopping = False, queue = [], tasks = [],
      threads = [Idle], heap = [], waiting = [], joining = None,
      executed = [], deleted = [] \<rparr> [Submit ''job'' (Some 7)] =
   Return \<lparr> stopping = False, queue = [''job''], tasks = [(''job'', 0)],
      threads = [Idle],
      heap = [\<lparr>task = 7, started = False, finished = False, waited = False\<rparr>],
      waiting = [], joining = None, executed = [], deleted = [] \<rparr> \<and>
   ThreadPool_dtor \<lparr> stopping = False, queue = [''job''], tasks = [(''job'', 0)],
      threads = [Idle],
      heap = [\<lparr>task = 7, started = False, finished = False, waited = False\<rparr>],
      waiting = [], joining = None, executed = [], deleted = [] \<rparr>
     [Take 0, Run 0 Completes, Mark 0, Take 0, Join, Join] =
   Return \<lparr> stopping = True, queue = [], tasks = [],
      threads = [Joined],
      heap = [\<lparr>task = 7, started = True, finished = True, waited = False\<rparr>],
      waiting = [], joining = None, executed = [7], deleted = [7] \<rparr>"
  by (simp add: eval_defs)

section \<open>The queue and the registry\<close>

text \<open>
  C9.  In every state the pool can reach, each name in the queue is registered, its record
  exists and is neither started nor finished; so the lookup of a worker that dequeues
  never meets a missing entry, and a WaitForTask on a queued name suspends instead of
  removing the record.  The destructor clears the registry only once the queue is empty.
\<close>

theorem queued_names_registered:
  assumes "ThreadPool_ctor n = Inr s0" and "run s0 as = Return s"
  shows "(\<forall>name \<in> set (queue s). \<exists>a. map_of (tasks s) name = Some a \<and>
            a < length (heap s) \<and> \<not> started (heap s ! a) \<and> \<not> finished (heap s ! a)) \<and>
         (\<forall>i. WorkerLoop_take s i \<noteq> Crash) \<and>
         (\<forall>name \<in> set (queue s). \<exists>s1. WaitForTask s name = Suspend s1 \<and>
            map_of (tasks s1) name = map_of (tasks s) name \<and> queue s1 = queue s) \<and>
         (\<forall>sched s'. ThreadPool_dtor s sched = Return s' \<longrightarrow> queue s' = [] \<and> tasks s' = [])"
proof -
  from assms have inv: "pool_inv s" by (rule reachable_inv)
  then have q: "queue_inv s" and r: "registry_inv s" by (simp_all add: pool_inv_def)
  have 1: "\<exists>a. map_of (tasks s) name = Some a \<and> a < length (heap s) \<and>
      \<not> started (heap s ! a) \<and> \<not> finished (heap s ! a)" if "name \<in> set (queue s)" for name
    using q r that by (fastforce simp: queue_inv_def registry_inv_def)
  have 2: "WorkerLoop_take s i \<noteq> Crash" for i
    using q by (rule take_no_crash)
  have 3: "\<exists>s1. WaitForTask s name = Suspend s1 \<and>
      map_of (tasks s1) name = map_of (tasks s) name \<and> queue s1 = queue s"
    if "name \<in> set (queue s)" for name
  proof -
    from 1 [OF that] obtain a where "map_of (tasks s) name = Some a" "\<not> finished (heap s ! a)"
      by blast
    then show ?thesis by (simp add: WaitForTask_def)
  qed
  have 4: "queue s' = [] \<and> tasks s' = []" if "ThreadPool_dtor s sched = Return s'" for sched s'
    using inv that by (rule dtor_queue_empty)
  from 1 2 3 4 show ?thesis by blast
qed

theorem queued_names_registered_witness:
  "ThreadPool_ctor 2 = Inr \<lparr> stopping = False, queue = [], tasks = [],
      threads = [Idle, Idle], heap = [], waiting = [], joining = None,
      executed = [], deleted = [] \<rparr> \<and>
   run \<lparr> stopping = False, queue = [], tasks = [],
      threads = [Idle, Idle], heap = [], waiting = [], joining = None,
      executed = [], deleted = [] \<rparr>
     [Submit ''a'' (Some 10), Submit ''b'' (Some 11), Take 0] =
   Return \<lparr> stopping = False, queue = [''b''], tasks = [(''a'', 0), (''b'', 1)],
      threads = [Running 0, Idle],
      heap = [\<lparr>task = 10, started = True, finished = False, waited = False\<rparr>,
              \<lparr>task = 11, started = False, finished = False, waited = False\<rparr>],
      waiting = [], joining = None, executed = [], deleted = [] \<rparr> \<and>
   WorkerLoop_take \<lparr> stopping = False, queue = [''b''], tasks = [(''a'', 0), (''b'', 1)],
      threads = [Running 0, Idle],
      heap = [\<lparr>task = 10, started = True, finished = False, waited = False\<rparr>,
              \<lparr>task = 11, started = False, finished = False, waited = False\<rparr>],
      waiting = [], joining = None, executed = [], deleted = [] \<rparr> 1 \<noteq> Crash"
proof -
  let ?init = "\<lparr> stopping = False, queue = [], tasks = [],
      threads = [Idle, Idle], heap = [], waiting = [], joining = None,
      executed = [], deleted = [] \<rparr>"
  let ?st = "\<lparr> stopping = False, queue = [''b''], tasks = [(''a'', 0), (''b'', 1)],
      threads = [Running 0, Idle],
      heap = [\<lparr>task = 10, started = True, finished = False, waited = False\<rparr>,
              \<lparr>task = 11, started = False, finished = False, waited = False\<rparr>],
      waiting = [], joining = None, executed = [], deleted = [] \<rparr>"
  have c: "ThreadPool_ctor 2 = Inr ?init"
    by (simp add: eval_defs numeral_eq_Suc)
  have r: "run ?init [Submit ''a'' (Some 10), Submit ''b'' (Some 11), Take 0] = Return ?st"
    by (simp add: eval_defs)
  from queued_names_registered [OF c r] have "WorkerLoop_take ?st 1 \<noteq> Crash" by blast
  with c r show ?thesis by simp
qed

end
